theory Spec2Isabelle
  imports Main
begin

section \<open>Exceptions, page interactions and the recorded history\<close>

text \<open>
  The repository drives a browser page (Playwright) and answers HTTP requests (FastAPI).
  The page, the file system and the clock are outside the program, so the model takes
  them as a world: a deterministic answer to every interaction, which may depend
  on everything that was attempted before. The program state is the history of the
  interactions attempted so far, oldest first; an interaction is recorded whether it
  returns or raises.

  Exceptions are the instances of Python's \<open>Exception\<close> that the source raises or
  that a collaborator may raise; \<open>Error\<close> stands for any other one, by its message.
\<close>

datatype exn =
    TimeoutError string
  | ValueError string
  | KeyError string
  | UnboundLocalError string
  | Error string
  | HTTPException nat string

text \<open>
  \<open>page.locator(sel).first\<close> is \<open>Loc sel\<close>; \<open>dialog.locator(sel).first\<close> is
  \<open>Within dialog sel\<close>.
\<close>

datatype locator = Loc string | Within locator string

datatype event =
    Goto string
  | WaitForSelector string nat
  | WaitVisible locator nat
  | Count locator
  | Click locator
  | Clear locator
  | Fill locator string
  | Press string
  | Makedirs string
  | Screenshot string
  | Sleep nat
  | StartPlaywright
  | LaunchContext
  | NewPage
  | CloseBrowser
  | StopPlaywright

record world =
  raises :: "event list \<Rightarrow> event \<Rightarrow> exn option"
  counts :: "event list \<Rightarrow> locator \<Rightarrow> nat"
  now :: "event list \<Rightarrow> string"

type_synonym 'a io = "event list \<Rightarrow> (exn + 'a) \<times> event list"

definition ret :: "'a \<Rightarrow> 'a io" where
  "ret x h = (Inr x, h)"

definition raise :: "exn \<Rightarrow> 'a io" where
  "raise e h = (Inl e, h)"

definition and_then :: "'a io \<Rightarrow> ('a \<Rightarrow> 'b io) \<Rightarrow> 'b io" where
  "and_then m f h = (case m h of (Inl e, h') \<Rightarrow> (Inl e, h') | (Inr x, h') \<Rightarrow> f x h')"

text \<open>One awaited interaction with the outside: recorded, then it returns or raises.\<close>

definition call :: "world \<Rightarrow> event \<Rightarrow> unit io" where
  "call w ev h = (case raises w h ev of Some e \<Rightarrow> (Inl e, h @ [ev]) | None \<Rightarrow> (Inr (), h @ [ev]))"

text \<open>\<open>await locator.count()\<close>.\<close>

definition count :: "world \<Rightarrow> locator \<Rightarrow> nat io" where
  "count w l h = (case raises w h (Count l) of
                    Some e \<Rightarrow> (Inl e, h @ [Count l])
                  | None \<Rightarrow> (Inr (counts w h l), h @ [Count l]))"

text \<open>
  \<open>await asyncio.sleep(n)\<close>. The module binds \<open>asyncio\<close> on Windows (lines 2 to 4) and
  when it is run as a script (line 230); the model is of these configurations, where the
  call only lets time pass.
\<close>

definition sleep :: "nat \<Rightarrow> unit io" where
  "sleep n h = (Inr (), h @ [Sleep n])"

section \<open>gmail\_automation/main\_async\_fixed.py\<close>

subsection \<open>save\_screenshot\<close>

definition save_screenshot :: "world \<Rightarrow> string \<Rightarrow> string option io" where
  \<open>save_screenshot w label h =
     (case and_then (call w (Makedirs ''screens''))
             (\<lambda>_ h1. let path = ''screens/'' @ now w h1 @ ''_'' @ label @ ''.png''
                     in and_then (call w (Screenshot path)) (\<lambda>_. ret path) h1) h of
        (Inr path, h') \<Rightarrow> (Inr (Some path), h')
      | (Inl e, h') \<Rightarrow> (Inr None, h'))\<close>

subsection \<open>login\<close>

definition login :: "world \<Rightarrow> unit io" where
  \<open>login w =
     and_then (call w (Goto ''https://mail.google.com'')) (\<lambda>_.
     and_then (call w (WaitForSelector ''div[gh='cm']'' 120000)) (\<lambda>_.
     call w (WaitForSelector ''div[role='main']'' 60000)))\<close>

subsection \<open>wait\_for\_element\<close>

datatype selector = One string | Many "string list"

definition selectors_of :: "selector \<Rightarrow> string list" where
  "selectors_of selector = (case selector of One s \<Rightarrow> [s] | Many ss \<Rightarrow> ss)"

text \<open>
  The \<open>for sel in selectors\<close> loop: \<open>all\<close> is the whole list (its length splits the
  timeout), the fourth argument is what is left to try. A wait that raises is swallowed
  by the bare \<open>except\<close> and the loop continues.
\<close>

fun try_selectors :: "world \<Rightarrow> string list \<Rightarrow> nat \<Rightarrow> string list \<Rightarrow> event list
                        \<Rightarrow> locator option \<times> event list" where
  "try_selectors w all timeout [] h = (None, h)"
| "try_selectors w all timeout (sel # sels) h =
     (case call w (WaitVisible (Loc sel) (timeout div length all)) h of
        (Inr _, h') \<Rightarrow> (Some (Loc sel), h')
      | (Inl _, h') \<Rightarrow> try_selectors w all timeout sels h')"

definition dialog_sel :: string where
  \<open>dialog_sel = ''div[role='dialog']''\<close>

definition textbox_sel :: string where
  \<open>textbox_sel = ''[contenteditable='true'], input[type='text'], textarea''\<close>

definition dialog_fallback :: "world \<Rightarrow> string \<Rightarrow> locator io" where
  "dialog_fallback w description =
     and_then (count w (Loc dialog_sel)) (\<lambda>n.
       if n > 0 then
         and_then (count w (Within (Loc dialog_sel) textbox_sel)) (\<lambda>m.
           if m > 0 then ret (Within (Loc dialog_sel) textbox_sel)
           else raise (TimeoutError (''Could not find '' @ description)))
       else raise (TimeoutError (''Could not find '' @ description)))"

text \<open>The outer handler logs and re-raises the same exception, so it adds no branch.\<close>

definition wait_for_element :: "world \<Rightarrow> selector \<Rightarrow> nat \<Rightarrow> string \<Rightarrow> locator io" where
  "wait_for_element w selector timeout description h =
     (case try_selectors w (selectors_of selector) timeout (selectors_of selector) h of
        (Some element, h') \<Rightarrow> (Inr element, h')
      | (None, h') \<Rightarrow> dialog_fallback w description h')"

subsection \<open>fill\_field\_with\_retry\<close>

definition range :: "int \<Rightarrow> int list" where
  "range n = map int [0..<nat n]"

definition to_selectors4 :: "string list" where
  \<open>to_selectors4 = [''input[aria-label='To']'', ''input[name='to']'',
                     ''div[aria-label='To'] input'', ''input[email]'']\<close>

definition subject_selectors :: "string list" where
  \<open>subject_selectors = [''input[name='subjectbox']'', ''input[aria-label='Subject']'']\<close>

definition body_selectors :: "string list" where
  \<open>body_selectors = [''div[aria-label='Message Body']'', ''div[contenteditable='true']'',
                      ''div[role='textbox']'']\<close>

text \<open>
  The \<open>if/elif\<close> chain that binds \<open>field\<close>. With any other \<open>field_type\<close> the name
  stays unbound and \<open>field.click()\<close> raises \<open>UnboundLocalError\<close>.
\<close>

definition locate_field :: "world \<Rightarrow> string \<Rightarrow> locator io" where
  "locate_field w field_type =
     (if field_type = ''to'' then wait_for_element w (Many to_selectors4) 5000 ''To field''
      else if field_type = ''subject'' then
        wait_for_element w (Many subject_selectors) 5000 ''Subject field''
      else if field_type = ''body'' then
        wait_for_element w (Many body_selectors) 5000 ''Message body''
      else raise (UnboundLocalError ''field''))"

text \<open>The body of the \<open>try\<close>: one attempt at filling the field.\<close>

definition fill_once :: "world \<Rightarrow> string \<Rightarrow> string \<Rightarrow> bool io" where
  "fill_once w field_type val =
     and_then (locate_field w field_type) (\<lambda>field.
     and_then (call w (Click field)) (\<lambda>_.
     and_then (call w (Clear field)) (\<lambda>_.
     and_then (call w (Fill field val)) (\<lambda>_.
     ret True))))"

text \<open>
  \<open>for attempt in range(max_retries)\<close>: the last argument but one is the rest of the
  range. The loop falls through to \<open>return False\<close> when the range is empty.
\<close>

fun fill_loop :: "world \<Rightarrow> string \<Rightarrow> string \<Rightarrow> int \<Rightarrow> int list \<Rightarrow> bool io" where
  "fill_loop w field_type val max_retries [] h = (Inr False, h)"
| "fill_loop w field_type val max_retries (attempt # rest) h =
     (case fill_once w field_type val h of
        (Inr r, h') \<Rightarrow> (Inr r, h')
      | (Inl e, h') \<Rightarrow>
          if attempt = max_retries - 1 then (Inl e, h')
          else and_then (sleep 1) (\<lambda>_. fill_loop w field_type val max_retries rest) h')"

definition fill_field_with_retry :: "world \<Rightarrow> string \<Rightarrow> string \<Rightarrow> int \<Rightarrow> bool io" where
  "fill_field_with_retry w field_type val max_retries =
     fill_loop w field_type val max_retries (range max_retries)"

subsection \<open>send\_email\<close>

text \<open>
  \<open>email_data\<close> is a dictionary with the keys \<open>to\<close>, \<open>cc\<close>, \<open>bcc\<close>, \<open>subject\<close> and
  \<open>body\<close>; a key may be missing (\<open>None\<close>). A recipient entry is one address or a list
  of addresses (the source tests \<open>isinstance(..., list)\<close>); subject and body are strings,
  on which \<open>str\<close> is the identity.
\<close>

datatype recipients = Str string | Lst "string list"

record email_data =
  to :: "recipients option"
  cc :: "recipients option"
  bcc :: "recipients option"
  subject :: "string option"
  body :: "string option"

text \<open>\<open>d[key]\<close>: raises \<open>KeyError\<close> when the key is missing.\<close>

definition getitem :: "'a option \<Rightarrow> string \<Rightarrow> 'a io" where
  "getitem v key = (case v of None \<Rightarrow> raise (KeyError key) | Some x \<Rightarrow> ret x)"

text \<open>Python truth of \<open>d.get(key)\<close>: a missing key, an empty string and an empty list are false.\<close>

definition truthy :: "recipients option \<Rightarrow> bool" where
  "truthy v = (case v of None \<Rightarrow> False | Some (Str s) \<Rightarrow> s \<noteq> [] | Some (Lst xs) \<Rightarrow> xs \<noteq> [])"

text \<open>\<open>v if isinstance(v, list) else [v]\<close>.\<close>

definition as_list :: "recipients \<Rightarrow> string list" where
  "as_list v = (case v of Lst xs \<Rightarrow> xs | Str s \<Rightarrow> [s])"

definition compose_sel :: string where
  \<open>compose_sel = ''div[gh='cm']''\<close>

definition to_selectors :: "string list" where
  \<open>to_selectors = [''input[aria-label='To']'', ''input[name='to']'',
                    ''div[aria-label='To'] input'']\<close>

definition cc_selectors :: "string list" where
  \<open>cc_selectors = [''input[aria-label='Cc']'', ''input[name='cc']'']\<close>

definition bcc_selectors :: "string list" where
  \<open>bcc_selectors = [''input[aria-label='Bcc']'', ''input[name='bcc']'']\<close>

text \<open>
  The first send selector holds U+202A and U+202C around \<open>(Ctrl-Enter)\<close>; they are
  written as their UTF-8 bytes.
\<close>

definition send_selectors :: "string list" where
  \<open>send_selectors =
     [''div[aria-label="Send '' @ [CHR 0xE2, CHR 0x80, CHR 0xAA] @ ''(Ctrl-Enter)''
        @ [CHR 0xE2, CHR 0x80, CHR 0xAC] @ ''"]'',
      ''div[data-tooltip="Send"]'',
      ''button[aria-label="Send"]'',
      ''div[role="button"]:has-text("Send")'']\<close>

definition sent_marker :: string where
  "sent_marker = ''span.bAq''"

text \<open>
  The three recipient loops (lines 129 to 137, 142 to 149, 154 to 161) differ only in the
  selectors and the description: for each address the field is located again, clicked,
  filled, and Enter is pressed.
\<close>

fun fill_addresses :: "world \<Rightarrow> string list \<Rightarrow> string \<Rightarrow> string list \<Rightarrow> unit io" where
  "fill_addresses w sels description [] = ret ()"
| "fill_addresses w sels description (email # emails) =
     and_then (wait_for_element w (Many sels) 5000 description) (\<lambda>field.
     and_then (call w (Click field)) (\<lambda>_.
     and_then (call w (Fill field email)) (\<lambda>_.
     and_then (call w (Press ''Enter'')) (\<lambda>_.
     fill_addresses w sels description emails))))"

definition fill_optional :: "world \<Rightarrow> string list \<Rightarrow> string \<Rightarrow> recipients option \<Rightarrow> unit io" where
  "fill_optional w sels description v =
     (case v of
        None \<Rightarrow> ret ()
      | Some r \<Rightarrow> if truthy v then fill_addresses w sels description (as_list r) else ret ())"

text \<open>
  The body of the \<open>try\<close> in \<open>send_email\<close> is one attempt, from the compose click on.
  Its stages follow the comments of the source. First ``click compose button'' and ``wait
  for compose dialog'' (lines 119 to 125).
\<close>

definition open_compose :: "world \<Rightarrow> unit io" where
  "open_compose w =
     and_then (wait_for_element w (One compose_sel) 10000 ''compose button'') (\<lambda>compose_btn.
     and_then (call w (Click compose_btn)) (\<lambda>_.
     and_then (wait_for_element w (One dialog_sel) 10000 ''compose dialog'') (\<lambda>_.
     sleep 1)))"

text \<open>``Fill recipients'', ``fill CC if provided'', ``fill BCC if provided'' (lines 127 to 161).\<close>

definition fill_recipients :: "world \<Rightarrow> email_data \<Rightarrow> unit io" where
  "fill_recipients w ed =
     and_then (getitem (to ed) ''to'') (\<lambda>t.
     and_then (fill_addresses w to_selectors ''To field'' (as_list t)) (\<lambda>_.
     and_then (fill_optional w cc_selectors ''Cc field'' (cc ed)) (\<lambda>_.
     fill_optional w bcc_selectors ''Bcc field'' (bcc ed))))"

text \<open>``Fill subject'' (line 164); the result of \<open>fill_field_with_retry\<close> is dropped.\<close>

definition fill_subject :: "world \<Rightarrow> email_data \<Rightarrow> unit io" where
  "fill_subject w ed =
     and_then (getitem (subject ed) ''subject'') (\<lambda>s.
     and_then (fill_field_with_retry w ''subject'' s 3) (\<lambda>_.
     ret ()))"

text \<open>``Fill body'' (lines 166 to 173); \<open>email_data["body"]\<close> is read after the click.\<close>

definition fill_body :: "world \<Rightarrow> email_data \<Rightarrow> unit io" where
  "fill_body w ed =
     and_then (wait_for_element w (Many body_selectors) 5000 ''Message body'') (\<lambda>body_field.
     and_then (call w (Click body_field)) (\<lambda>_.
     and_then (getitem (body ed) ''body'') (\<lambda>b.
     call w (Fill body_field b))))"

text \<open>``Send email'' and ``wait for confirmation'' (lines 175 to 185).\<close>

definition click_send :: "world \<Rightarrow> unit io" where
  "click_send w =
     and_then (wait_for_element w (Many send_selectors) 5000 ''Send button'') (\<lambda>send_btn.
     and_then (call w (Click send_btn)) (\<lambda>_.
     call w (WaitForSelector sent_marker 10000)))"

definition send_attempt :: "world \<Rightarrow> email_data \<Rightarrow> bool io" where
  "send_attempt w ed =
     and_then (open_compose w) (\<lambda>_.
     and_then (fill_recipients w ed) (\<lambda>_.
     and_then (fill_subject w ed) (\<lambda>_.
     and_then (fill_body w ed) (\<lambda>_.
     and_then (click_send w) (\<lambda>_.
     ret True)))))"

text \<open>Python's \<open>str\<close> of an integer, for the snapshot label.\<close>

definition digit :: "nat \<Rightarrow> char" where
  "digit d = ''0123456789'' ! d"

function str_nat :: "nat \<Rightarrow> string" where
  "str_nat n = (if n < 10 then [digit n] else str_nat (n div 10) @ [digit (n mod 10)])"
  by pat_completeness auto
termination
  by (relation "measure id") auto

definition str_int :: "int \<Rightarrow> string" where
  "str_int i = (if i < 0 then ''-'' @ str_nat (nat (- i)) else str_nat (nat i))"

text \<open>
  \<open>for attempt in range(max_retries)\<close> with its handler: on the last attempt the
  snapshot is taken and the exception re-raised, otherwise the loop sleeps and goes on.
  The function returns \<open>True\<close> or, past an empty range, Python's \<open>None\<close>.
\<close>

fun send_loop :: "world \<Rightarrow> email_data \<Rightarrow> int \<Rightarrow> int list \<Rightarrow> bool option io" where
  "send_loop w ed max_retries [] h = (Inr None, h)"
| "send_loop w ed max_retries (attempt # rest) h =
     (case send_attempt w ed h of
        (Inr r, h') \<Rightarrow> (Inr (Some r), h')
      | (Inl e, h') \<Rightarrow>
          if attempt = max_retries - 1 then
            (case save_screenshot w (''send_error_attempt_'' @ str_int (attempt + 1)) h' of
               (Inl e', h'') \<Rightarrow> (Inl e', h'')
             | (Inr _, h'') \<Rightarrow> (Inl e, h''))
          else and_then (sleep 2) (\<lambda>_. send_loop w ed max_retries rest) h')"

text \<open>Line 114 reads \<open>email_data['to']\<close> and \<open>email_data['subject']\<close> for the log line.\<close>

definition send_email :: "world \<Rightarrow> email_data \<Rightarrow> bool option io" where
  "send_email w ed =
     and_then (getitem (to ed) ''to'') (\<lambda>_.
     and_then (getitem (subject ed) ''subject'') (\<lambda>_.
     send_loop w ed 3 (range 3)))"

section \<open>unified\_api.py\<close>

text \<open>
  \<open>str(e)\<close>, as the handlers put it into the response detail. A \<open>KeyError\<close> prints the
  \<open>repr\<close> of its key; an \<open>HTTPException\<close> prints status and detail (Starlette 0.28 and
  later). No claim depends on the text of a detail that is built from an \<open>HTTPException\<close>.
\<close>

definition str_exn :: "exn \<Rightarrow> string" where
  "str_exn e = (case e of
       TimeoutError m \<Rightarrow> m
     | ValueError m \<Rightarrow> m
     | KeyError k \<Rightarrow> [CHR 0x27] @ k @ [CHR 0x27]
     | UnboundLocalError m \<Rightarrow> m
     | Error m \<Rightarrow> m
     | HTTPException code detail \<Rightarrow> str_nat code @ '': '' @ detail)"

subsection \<open>gmail\_send\<close>

record GmailSendRequest =
  task :: string
  req_to :: "string list option"
  req_cc :: "string list option"
  req_bcc :: "string list option"
  tone :: "string option"

text \<open>
  The module globals set once at import time: the agent (here its \<open>parse_task\<close>, the
  language-model call, which returns the instructions or raises), the environment and
  the initialisation error.
\<close>

record app =
  gmail_agent :: "(string \<Rightarrow> string option \<Rightarrow> exn + email_data) option"
  gmail_env :: "(string \<times> string) list option"
  gmail_init_error :: "string option"

text \<open>
  \<open>parse_email_json\<close> is imported from \<open>gmail_automation.main\<close>, and \<open>login\<close> and
  \<open>send_email\<close> from \<open>gmail_automation.main_async\<close>; neither module is among the
  sources, so the three functions are parameters of the model.
\<close>

record imported =
  parse_email_json :: "email_data \<Rightarrow> exn + email_data"
  login_async :: "world \<Rightarrow> unit io"
  send_email_async :: "world \<Rightarrow> email_data \<Rightarrow> bool option io"

record send_reply =
  success :: bool
  message :: string
  email_preview :: email_data

text \<open>A call that touches nothing of the recorded world.\<close>

definition lift :: "exn + 'a \<Rightarrow> 'a io" where
  "lift r h = (r, h)"

text \<open>Python truth of a request field: \<open>None\<close> and the empty list are false.\<close>

definition given :: "string list option \<Rightarrow> bool" where
  "given v = (case v of None \<Rightarrow> False | Some xs \<Rightarrow> xs \<noteq> [])"

text \<open>Step 2 of \<open>gmail_send\<close>: the three assignments to \<open>instructions\<close>.\<close>

definition merge_recipients :: "GmailSendRequest \<Rightarrow> email_data \<Rightarrow> email_data" where
  "merge_recipients request instructions =
     (let i1 = (case req_to request of
                  Some xs \<Rightarrow> if given (req_to request) then instructions\<lparr>to := Some (Lst xs)\<rparr>
                            else instructions
                | None \<Rightarrow> instructions);
          i2 = (case req_cc request of
                  Some xs \<Rightarrow> if given (req_cc request) then i1\<lparr>cc := Some (Lst xs)\<rparr> else i1
                | None \<Rightarrow> i1);
          i3 = (case req_bcc request of
                  Some xs \<Rightarrow> if given (req_bcc request) then i2\<lparr>bcc := Some (Lst xs)\<rparr> else i2
                | None \<Rightarrow> i2)
      in i3)"

text \<open>
  \<open>_send_email_async\<close>: the \<open>async with\<close> block leaves through the context manager's
  exit on every path; the handler prints and re-raises.
\<close>

definition send_email_async_helper :: "imported \<Rightarrow> world \<Rightarrow> email_data \<Rightarrow> unit io" where
  "send_email_async_helper imp w ed =
     and_then (call w StartPlaywright) (\<lambda>_ h.
       case and_then (call w LaunchContext) (\<lambda>_.
            and_then (call w NewPage) (\<lambda>_.
            and_then (login_async imp w) (\<lambda>_.
            and_then (send_email_async imp w ed) (\<lambda>_.
            call w CloseBrowser)))) h of
         (r, h1) \<Rightarrow> (case call w StopPlaywright h1 of
                       (Inl e, h2) \<Rightarrow> (Inl e, h2)
                     | (Inr _, h2) \<Rightarrow> (r, h2)))"

definition sent_message :: string where
  "sent_message = [CHR 0xE2, CHR 0x9C, CHR 0x85] @ '' Email sent successfully''"

text \<open>The body of the outer \<open>try\<close> of \<open>gmail_send\<close>.\<close>

definition gmail_send_body ::
    "imported \<Rightarrow> world \<Rightarrow> (string \<Rightarrow> string option \<Rightarrow> exn + email_data) \<Rightarrow> GmailSendRequest
       \<Rightarrow> send_reply io" where
  "gmail_send_body imp w parse_task request =
     and_then (lift (parse_task (task request) (tone request))) (\<lambda>instructions.
     and_then (lift (parse_email_json imp (merge_recipients request instructions))) (\<lambda>email_data.
       if \<not> truthy (to email_data) then
         raise (ValueError ''No recipient found after parsing/merge.'')
       else
         and_then (\<lambda>h. case send_email_async_helper imp w email_data h of
                      (Inl e, h') \<Rightarrow>
                        (Inl (HTTPException 500 (''Gmail send failed: '' @ str_exn e)), h')
                    | (Inr u, h') \<Rightarrow> (Inr u, h')) (\<lambda>_.
         ret \<lparr>success = True, message = sent_message, email_preview = email_data\<rparr>)))"

text \<open>
  \<open>gmail_send\<close>: the availability check, then the body under the two handlers: an
  \<open>HTTPException\<close> passes, any other exception becomes a 500.
\<close>

definition gmail_send :: "app \<Rightarrow> imported \<Rightarrow> world \<Rightarrow> GmailSendRequest \<Rightarrow> send_reply io" where
  "gmail_send a imp w request h =
     (case gmail_agent a of
        None \<Rightarrow> (Inl (HTTPException 503 (''Gmail service not available. '' @
                   (case gmail_init_error a of
                      None \<Rightarrow> ''Check configuration.''
                    | Some m \<Rightarrow> if m = [] then ''Check configuration.'' else m))), h)
      | Some parse_task \<Rightarrow>
          if gmail_env a = None then
            (Inl (HTTPException 503 (''Gmail service not available. '' @
                   (case gmail_init_error a of
                      None \<Rightarrow> ''Check configuration.''
                    | Some m \<Rightarrow> if m = [] then ''Check configuration.'' else m))), h)
          else
            (case gmail_send_body imp w parse_task request h of
               (Inl (HTTPException code detail), h') \<Rightarrow> (Inl (HTTPException code detail), h')
             | (Inl e, h') \<Rightarrow> (Inl (HTTPException 500 (''Gmail send failed: '' @ str_exn e)), h')
             | (Inr r, h') \<Rightarrow> (Inr r, h')))"

subsection \<open>search\_documents\<close>

text \<open>
  The handler of \<open>POST /api/search\<close> is the same in \<open>unified_api.py\<close> and in
  \<open>pdf/retriever/app.py\<close>. The vector store and the language model are collaborators
  that return or raise; a chunk is its page content.
\<close>

record PDFSearchRequest =
  question :: string
  max_results :: int

record backend =
  similarity_search :: "string \<Rightarrow> nat \<Rightarrow> exn + string list"
  token :: "string \<Rightarrow> string \<Rightarrow> string \<Rightarrow> exn + string"

record search_reply =
  response :: string
  context_str :: string
  chunks_found :: nat

fun join :: "string \<Rightarrow> string list \<Rightarrow> string" where
  "join sep [] = []"
| "join sep [x] = x"
| "join sep (x # y # ys) = x @ sep @ join sep (y # ys)"

text \<open>The body of the \<open>try\<close>.\<close>

definition search_body :: "backend \<Rightarrow> PDFSearchRequest \<Rightarrow> exn + search_reply" where
  "search_body b query =
     (if question query = [] then Inl (HTTPException 400 ''Question is required'')
      else case similarity_search b (question query) 5 of
             Inl e \<Rightarrow> Inl e
           | Inr chunks \<Rightarrow>
               (case token b (question query) ''x-ai/grok-2-vision-1212''
                            (join [CHR 0x0A] chunks) of
                  Inl e \<Rightarrow> Inl e
                | Inr answer \<Rightarrow>
                    Inr \<lparr>response = answer, context_str = join [CHR 0x0A] chunks,
                         chunks_found = length chunks\<rparr>))"

text \<open>\<open>except Exception as e\<close>: every exception of the body, of whatever class, becomes a 500.\<close>

definition search_documents :: "backend \<Rightarrow> PDFSearchRequest \<Rightarrow> exn + search_reply" where
  "search_documents b query =
     (case search_body b query of
        Inl e \<Rightarrow> Inl (HTTPException 500 (''Search error: '' @ str_exn e))
      | Inr r \<Rightarrow> Inr r)"

section \<open>Concrete pages, drafts and requests\<close>

text \<open>A page on which every interaction returns, and one on which every interaction raises.\<close>

definition page_ok :: world where
  "page_ok = \<lparr>raises = (\<lambda>h ev. None), counts = (\<lambda>h l. 1), now = (\<lambda>h. ''20240101_120000'')\<rparr>"

definition page_dead :: world where
  "page_dead = \<lparr>raises = (\<lambda>h ev. Some (Error ''page closed'')), counts = (\<lambda>h l. 0),
                 now = (\<lambda>h. ''20240101_120000'')\<rparr>"

definition draft0 :: email_data where
  "draft0 = \<lparr>to = Some (Lst [''a@x'']), cc = Some (Lst []), bcc = None,
             subject = Some ''Hello'', body = Some ''Text''\<rparr>"

definition no_recipient :: email_data where
  "no_recipient = \<lparr>to = Some (Lst []), cc = Some (Lst []), bcc = Some (Lst []),
             subject = Some ''Hello'', body = Some ''Text''\<rparr>"

text \<open>
  Two running services: the translator of the first finds no recipient, the translator of
  the second answers \<open>draft0\<close>. The validator returns its argument, and the pipeline is the
  one of \<open>main_async_fixed.py\<close>.
\<close>

definition app0 :: app where
  "app0 = \<lparr>gmail_agent = Some (\<lambda>t tn. Inr no_recipient), gmail_env = Some [],
            gmail_init_error = None\<rparr>"

definition app1 :: app where
  "app1 = \<lparr>gmail_agent = Some (\<lambda>t tn. Inr draft0), gmail_env = Some [],
            gmail_init_error = None\<rparr>"

definition imp0 :: imported where
  "imp0 = \<lparr>parse_email_json = Inr, login_async = login, send_email_async = send_email\<rparr>"

definition request0 :: GmailSendRequest where
  "request0 = \<lparr>task = ''Say hello'', req_to = Some [], req_cc = Some [], req_bcc = Some [],
                tone = None\<rparr>"

definition request1 :: GmailSendRequest where
  "request1 = \<lparr>task = ''Say hello'', req_to = Some [''b@x''], req_cc = Some [], req_bcc = None,
                tone = None\<rparr>"

section \<open>Notions used to state the claims\<close>

text \<open>
  The wait on one candidate of a selector list, with the per-candidate budget of
  \<open>wait_for_element\<close>; the waits on the first \<open>j\<close> candidates, in list order; and whether
  candidate \<open>j\<close> becomes visible when it is waited on after the ones before it.
\<close>

definition candidate_wait :: "nat \<Rightarrow> string list \<Rightarrow> string \<Rightarrow> event" where
  "candidate_wait timeout sels s = WaitVisible (Loc s) (timeout div length sels)"

definition tried :: "nat \<Rightarrow> string list \<Rightarrow> nat \<Rightarrow> event list" where
  "tried timeout sels j = map (candidate_wait timeout sels) (take j sels)"

definition resolves :: "world \<Rightarrow> event list \<Rightarrow> nat \<Rightarrow> string list \<Rightarrow> nat \<Rightarrow> bool" where
  "resolves w h timeout sels j =
     (raises w (h @ tried timeout sels j) (candidate_wait timeout sels (sels ! j)) = None)"

text \<open>The dialog fallback finds an element: the dialog is there and holds a text box.\<close>

definition fallback_finds :: "world \<Rightarrow> event list \<Rightarrow> bool" where
  "fallback_finds w g =
     (raises w g (Count (Loc dialog_sel)) = None \<and> counts w g (Loc dialog_sel) > 0 \<and>
      raises w (g @ [Count (Loc dialog_sel)]) (Count (Within (Loc dialog_sel) textbox_sel)) = None \<and>
      counts w (g @ [Count (Loc dialog_sel)]) (Within (Loc dialog_sel) textbox_sel) > 0)"

text \<open>
  What an operation adds to the history: \<open>emits P m\<close> says that \<open>m\<close> only extends the
  history, by interactions that satisfy \<open>P\<close>; \<open>at_most Q n m\<close> that at most \<open>n\<close> of the
  added interactions satisfy \<open>Q\<close>; \<open>returns R m\<close> that every value \<open>m\<close> returns satisfies \<open>R\<close>.
\<close>

definition emits :: "(event \<Rightarrow> bool) \<Rightarrow> 'a io \<Rightarrow> bool" where
  "emits P m = (\<forall>h. \<exists>evs. snd (m h) = h @ evs \<and> list_all P evs)"

definition at_most :: "(event \<Rightarrow> bool) \<Rightarrow> nat \<Rightarrow> 'a io \<Rightarrow> bool" where
  "at_most Q n m = (\<forall>h. \<exists>evs. snd (m h) = h @ evs \<and> length (filter Q evs) \<le> n)"

definition returns :: "('a \<Rightarrow> bool) \<Rightarrow> 'a io \<Rightarrow> bool" where
  "returns R m = (\<forall>h x h'. m h = (Inr x, h') \<longrightarrow> R x)"

text \<open>The interactions by which an element is looked for.\<close>

fun is_locate :: "event \<Rightarrow> bool" where
  "is_locate (WaitVisible l t) = True"
| "is_locate (Count l) = True"
| "is_locate e = False"

text \<open>What \<open>wait_for_element\<close> may return for a selector list: one of its candidates, or the
  first text box of the dialog.\<close>

definition found_by :: "string list \<Rightarrow> locator \<Rightarrow> bool" where
  "found_by sels l = (l \<in> Loc ` set sels \<or> l = Within (Loc dialog_sel) textbox_sel)"

text \<open>
  The history at the start of attempt \<open>k\<close> (counted from 0) of a retry loop, when the
  attempts before it failed and the loop slept after each of them.
\<close>

fun fill_start :: "world \<Rightarrow> string \<Rightarrow> string \<Rightarrow> event list \<Rightarrow> nat \<Rightarrow> event list" where
  "fill_start w field_type val h 0 = h"
| "fill_start w field_type val h (Suc k) =
     snd (fill_once w field_type val (fill_start w field_type val h k)) @ [Sleep 1]"

fun send_start :: "world \<Rightarrow> email_data \<Rightarrow> event list \<Rightarrow> nat \<Rightarrow> event list" where
  "send_start w ed h 0 = h"
| "send_start w ed h (Suc k) = snd (send_attempt w ed (send_start w ed h k)) @ [Sleep 2]"

text \<open>
  Every attempt of \<open>fill_field_with_retry\<close> opens with the wait on the first candidate of
  its field, and waits on it once; the attempts made are counted by these waits.
\<close>

definition field_selectors :: "string \<Rightarrow> string list" where
  "field_selectors field_type =
     (if field_type = ''to'' then to_selectors4
      else if field_type = ''subject'' then subject_selectors
      else if field_type = ''body'' then body_selectors
      else [])"

definition attempts_made :: "string \<Rightarrow> event list \<Rightarrow> nat" where
  "attempts_made field_type evs =
     (case field_selectors field_type of
        [] \<Rightarrow> 0
      | s # ss \<Rightarrow> length (filter (\<lambda>e. e = candidate_wait 5000 (s # ss) s) evs))"

text \<open>Every call of \<open>save_screenshot\<close> opens with \<open>os.makedirs("screens")\<close>, and nothing else does.\<close>

definition snapshots_taken :: "event list \<Rightarrow> nat" where
  "snapshots_taken evs = length (filter (\<lambda>e. e = Makedirs ''screens'') evs)"

text \<open>A click on one of the candidates for the send button.\<close>

definition is_send_click :: "event \<Rightarrow> bool" where
  "is_send_click e = (e \<in> (\<lambda>s. Click (Loc s)) ` set send_selectors)"

text \<open>A page on which a click fails until the program has slept twice for one second.\<close>

definition page_slow :: world where
  "page_slow = \<lparr>raises = (\<lambda>h ev. case ev of
                               Click l \<Rightarrow> if length (filter (\<lambda>e. e = Sleep 1) h) < 2
                                          then Some (Error ''not ready'') else None
                             | _ \<Rightarrow> None),
                 counts = (\<lambda>h l. 0), now = (\<lambda>h. ''20240101_120000'')\<rparr>"

definition subject_box :: locator where
  "subject_box = Loc (hd subject_selectors)"

text \<open>
  A page on which every interaction raises, with a message that tells how often the
  program has slept so far: the errors of successive attempts differ.
\<close>

definition page_failing :: world where
  "page_failing =
     \<lparr>raises = (\<lambda>h ev. Some (Error (''failure '' @
                  str_nat (Suc (length (filter (\<lambda>e. e = Sleep 1 \<or> e = Sleep 2) h)))))),
      counts = (\<lambda>h l. 0), now = (\<lambda>h. ''20240101_120000'')\<rparr>"

text \<open>A page on which everything returns, but the confirmation marker never appears.\<close>

definition page_no_marker :: world where
  "page_no_marker =
     \<lparr>raises = (\<lambda>h ev. if ev = WaitForSelector sent_marker 10000
                        then Some (TimeoutError ''Timeout 10000ms exceeded.'') else None),
      counts = (\<lambda>h l. 1), now = (\<lambda>h. ''20240101_120000'')\<rparr>"

text \<open>An attempt up to the point where the send button has been found.\<close>

definition until_send :: "world \<Rightarrow> email_data \<Rightarrow> locator io" where
  "until_send w ed =
     and_then (open_compose w) (\<lambda>_.
     and_then (fill_recipients w ed) (\<lambda>_.
     and_then (fill_subject w ed) (\<lambda>_.
     and_then (fill_body w ed) (\<lambda>_.
     wait_for_element w (Many send_selectors) 5000 ''Send button''))))"

text \<open>The interactions that enter text: a fill and a key press.\<close>

fun is_entry :: "event \<Rightarrow> bool" where
  "is_entry (Fill l a) = True"
| "is_entry (Press k) = True"
| "is_entry e = False"

fun is_press :: "event \<Rightarrow> bool" where
  "is_press (Press k) = True"
| "is_press e = False"

text \<open>
  The recipients of a draft in the order \<open>to\<close>, \<open>cc\<close>, \<open>bcc\<close>, each with the selectors of
  its field.
\<close>

definition recipient_plan :: "email_data \<Rightarrow> (string list \<times> string) list" where
  "recipient_plan ed =
     map (Pair to_selectors) (case to ed of None \<Rightarrow> [] | Some t \<Rightarrow> as_list t)
     @ map (Pair cc_selectors)
         (case cc ed of None \<Rightarrow> [] | Some r \<Rightarrow> if truthy (cc ed) then as_list r else [])
     @ map (Pair bcc_selectors)
         (case bcc ed of None \<Rightarrow> [] | Some r \<Rightarrow> if truthy (bcc ed) then as_list r else [])"

text \<open>
  What is done for one address \<open>a\<close> of a field with the selectors \<open>sels\<close>: the field is
  located, starting with the wait on its first candidate; the element found is clicked and
  filled with \<open>a\<close>; Enter is pressed.
\<close>

definition recipient_block :: "string list \<Rightarrow> string \<Rightarrow> event list \<Rightarrow> bool" where
  "recipient_block sels a evs =
     (let ws = take (length evs - 3) evs
      in ws \<noteq> [] \<and> list_all is_locate ws \<and>
         (case sels of [] \<Rightarrow> False | s # ss \<Rightarrow> hd ws = candidate_wait 5000 sels s) \<and>
         list_ex (\<lambda>f. drop (length evs - 3) evs = [Click f, Fill f a, Press ''Enter''])
           (map Loc sels @ [Within (Loc dialog_sel) textbox_sel]))"

text \<open>A draft with two \<open>to\<close> addresses, a \<open>cc\<close> address given as a string, and a \<open>bcc\<close> address.\<close>

definition draft_abcd :: email_data where
  "draft_abcd = \<lparr>to = Some (Lst [''a@x'', ''b@x'']), cc = Some (Str ''c@x''),
                 bcc = Some (Lst [''d@x'']), subject = Some ''Hello'', body = Some ''Text''\<rparr>"

text \<open>
  A page on which everything returns until the wait for the confirmation marker has timed
  out once, and on which every interaction raises from then on.
\<close>

definition page_dies :: world where
  "page_dies =
     \<lparr>raises = (\<lambda>h ev. if WaitForSelector sent_marker 10000 \<in> set h
                        then Some (Error ''page closed'')
                        else if ev = WaitForSelector sent_marker 10000
                        then Some (TimeoutError ''Timeout 10000ms exceeded.'') else None),
      counts = (\<lambda>h l. 1), now = (\<lambda>h. ''20240101_120000'')\<rparr>"

text \<open>A page on which only the second candidate of a list becomes visible, and no dialog is open.\<close>

definition page_second :: world where
  "page_second = \<lparr>raises = (\<lambda>h ev. if ev = WaitVisible (Loc ''b'') 1666 then None
                                   else Some (TimeoutError ''Timeout exceeded'')),
                   counts = (\<lambda>h l. 0), now = (\<lambda>h. ''20240101_120000'')\<rparr>"

section \<open>Auxiliary facts\<close>

lemma range_3: "range 3 = [0, 1, 2]"
  by (simp add: range_def eval_nat_numeral upt_rec)

lemma save_screenshot_total:
  "\<exists>r h'. save_screenshot w label h = (Inr r, h')"
  by (simp add: save_screenshot_def and_then_def call_def ret_def Let_def split: option.splits)

lemmas page_ok_simps = page_ok_def call_def count_def and_then_def ret_def sleep_def
  wait_for_element_def selectors_of_def getitem_def

lemmas pipeline_simps = send_email_def send_attempt_def open_compose_def fill_recipients_def
  fill_subject_def fill_body_def click_send_def as_list_def fill_optional_def truthy_def
  to_selectors_def body_selectors_def send_selectors_def fill_field_with_retry_def range_3
  fill_once_def locate_field_def subject_selectors_def

lemma gmail_send_page_ok:
  "fst (gmail_send app1 imp0 page_ok request1 []) =
     Inr \<lparr>success = True, message = sent_message,
          email_preview = draft0\<lparr>to := Some (Lst [''b@x''])\<rparr>\<rparr>"
  by (simp add: gmail_send_def gmail_send_body_def app1_def imp0_def request1_def lift_def
      merge_recipients_def given_def send_email_async_helper_def login_def draft0_def
      pipeline_simps page_ok_simps)

lemma gmail_send_page_ok_starts:
  "hd (snd (gmail_send app1 imp0 page_ok request1 [])) = StartPlaywright"
  by (simp add: gmail_send_def gmail_send_body_def app1_def imp0_def request1_def lift_def
      merge_recipients_def given_def send_email_async_helper_def login_def draft0_def
      pipeline_simps page_ok_simps)

lemma candidate_wait_fun:
  "candidate_wait timeout sels = (\<lambda>s. WaitVisible (Loc s) (timeout div length sels))"
  by (rule ext) (simp add: candidate_wait_def)

lemma try_selectors_first:
  "i < length sels \<Longrightarrow>
   (\<forall>j<i. raises w (h @ map (\<lambda>s. WaitVisible (Loc s) (t div length all)) (take j sels))
             (WaitVisible (Loc (sels ! j)) (t div length all)) \<noteq> None) \<Longrightarrow>
   raises w (h @ map (\<lambda>s. WaitVisible (Loc s) (t div length all)) (take i sels))
             (WaitVisible (Loc (sels ! i)) (t div length all)) = None \<Longrightarrow>
   try_selectors w all t sels h =
     (Some (Loc (sels ! i)), h @ map (\<lambda>s. WaitVisible (Loc s) (t div length all)) (take (Suc i) sels))"
proof (induction sels arbitrary: h i)
  case Nil
  then show ?case by simp
next
  case (Cons sel sels)
  show ?case
  proof (cases i)
    case 0
    with Cons.prems show ?thesis by (simp add: call_def)
  next
    case (Suc k)
    from Cons.prems(2) Suc have f0: "raises w h (WaitVisible (Loc sel) (t div length all)) \<noteq> None"
      by (auto dest: spec [of _ 0])
    have k: "k < length sels" using Cons.prems(1) Suc by simp
    have a: "\<forall>j<k. raises w ((h @ [WaitVisible (Loc sel) (t div length all)]) @
                 map (\<lambda>s. WaitVisible (Loc s) (t div length all)) (take j sels))
             (WaitVisible (Loc (sels ! j)) (t div length all)) \<noteq> None"
    proof (intro allI impI)
      fix j assume "j < k"
      then have "Suc j < i" using Suc by simp
      with Cons.prems(2) show "raises w ((h @ [WaitVisible (Loc sel) (t div length all)]) @
                 map (\<lambda>s. WaitVisible (Loc s) (t div length all)) (take j sels))
             (WaitVisible (Loc (sels ! j)) (t div length all)) \<noteq> None"
        by (auto dest: spec [of _ "Suc j"])
    qed
    have b: "raises w ((h @ [WaitVisible (Loc sel) (t div length all)]) @
                 map (\<lambda>s. WaitVisible (Loc s) (t div length all)) (take k sels))
             (WaitVisible (Loc (sels ! k)) (t div length all)) = None"
      using Cons.prems(3) Suc by simp
    from Cons.IH [OF k a b] f0 Suc show ?thesis by (auto simp add: call_def)
  qed
qed

lemma try_selectors_none:
  "fst (try_selectors w all t sels h) = None \<longleftrightarrow>
   (\<forall>j<length sels. raises w (h @ map (\<lambda>s. WaitVisible (Loc s) (t div length all)) (take j sels))
             (WaitVisible (Loc (sels ! j)) (t div length all)) \<noteq> None)"
proof (induction sels arbitrary: h)
  case Nil
  then show ?case by simp
next
  case (Cons sel sels)
  show ?case
  proof (cases "raises w h (WaitVisible (Loc sel) (t div length all))")
    case None
    then show ?thesis by (auto simp add: call_def)
  next
    case (Some e)
    have "fst (try_selectors w all t (sel # sels) h)
            = fst (try_selectors w all t sels (h @ [WaitVisible (Loc sel) (t div length all)]))"
      using Some by (simp add: call_def)
    also have "\<dots> = None \<longleftrightarrow> (\<forall>j<length sels.
        raises w ((h @ [WaitVisible (Loc sel) (t div length all)]) @
                 map (\<lambda>s. WaitVisible (Loc s) (t div length all)) (take j sels))
             (WaitVisible (Loc (sels ! j)) (t div length all)) \<noteq> None)"
      by (rule Cons.IH)
    also have "\<dots> \<longleftrightarrow> (\<forall>j<length (sel # sels).
        raises w (h @ map (\<lambda>s. WaitVisible (Loc s) (t div length all)) (take j (sel # sels)))
             (WaitVisible (Loc ((sel # sels) ! j)) (t div length all)) \<noteq> None)"
      using Some by (auto simp add: less_Suc_eq_0_disj)
    finally show ?thesis .
  qed
qed

lemma try_selectors_none_history:
  "fst (try_selectors w all t sels h) = None \<Longrightarrow>
   snd (try_selectors w all t sels h) = h @ map (\<lambda>s. WaitVisible (Loc s) (t div length all)) sels"
proof (induction sels arbitrary: h)
  case Nil
  then show ?case by simp
next
  case (Cons sel sels)
  then show ?case
    by (cases "raises w h (WaitVisible (Loc sel) (t div length all))") (auto simp add: call_def)
qed

lemma dialog_fallback_raises:
  "isl (fst (dialog_fallback w d g)) \<longleftrightarrow> \<not> fallback_finds w g"
  by (auto simp add: dialog_fallback_def fallback_finds_def and_then_def count_def ret_def raise_def
      split: option.splits)

subsection \<open>What the operations add to the history\<close>

lemma emitsI: "(\<And>h. \<exists>evs. snd (m h) = h @ evs \<and> list_all P evs) \<Longrightarrow> emits P m"
  by (simp add: emits_def)

lemma emitsD: "emits P m \<Longrightarrow> \<exists>evs. snd (m h) = h @ evs \<and> list_all P evs"
  by (simp add: emits_def)

lemma emits_mono: "emits P m \<Longrightarrow> (\<And>e. P e \<Longrightarrow> Q e) \<Longrightarrow> emits Q m"
  unfolding emits_def list_all_iff by blast

lemma emits_ret: "emits P (ret x)"
  by (simp add: emits_def ret_def)

lemma emits_raise: "emits P (raise e)"
  by (simp add: emits_def raise_def)

lemma emits_call: "P ev \<Longrightarrow> emits P (call w ev)"
  by (simp add: emits_def call_def split: option.splits)

lemma emits_count: "P (Count l) \<Longrightarrow> emits P (count w l)"
  by (simp add: emits_def count_def split: option.splits)

lemma emits_sleep: "P (Sleep n) \<Longrightarrow> emits P (sleep n)"
  by (simp add: emits_def sleep_def)

lemma emits_getitem: "emits P (getitem v k)"
  by (simp add: getitem_def emits_ret emits_raise split: option.splits)

lemma emits_and_then_returns:
  assumes "emits P m" and "returns R m" and "\<And>x. R x \<Longrightarrow> emits P (f x)"
  shows "emits P (and_then m f)"
proof (rule emitsI)
  fix h
  obtain r h1 where m: "m h = (r, h1)" by (cases "m h")
  from emitsD [OF assms(1), of h] m obtain e1 where e1: "h1 = h @ e1" "list_all P e1" by auto
  show "\<exists>evs. snd (and_then m f h) = h @ evs \<and> list_all P evs"
  proof (cases r)
    case (Inl e)
    with m e1 show ?thesis by (simp add: and_then_def)
  next
    case (Inr x)
    with m assms(2) have "R x" unfolding returns_def by blast
    from emitsD [OF assms(3) [OF this], of h1]
    obtain e2 where "snd (f x h1) = h1 @ e2" "list_all P e2" by auto
    with m e1 Inr show ?thesis by (simp add: and_then_def)
  qed
qed

lemma returns_True: "returns (\<lambda>x. True) m"
  by (simp add: returns_def)

lemma emits_and_then:
  assumes "emits P m" and "\<And>x. emits P (f x)"
  shows "emits P (and_then m f)"
  using assms(1) returns_True assms(2) by (rule emits_and_then_returns)

lemma try_selectors_emits:
  "\<exists>evs. snd (try_selectors w all t sels h) = h @ evs \<and> list_all is_locate evs"
proof (induction sels arbitrary: h)
  case Nil
  then show ?case by simp
next
  case (Cons sel sels)
  let ?ev = "WaitVisible (Loc sel) (t div length all)"
  from Cons [of "h @ [?ev]"] obtain evs where
    evs: "snd (try_selectors w all t sels (h @ [?ev])) = (h @ [?ev]) @ evs" "list_all is_locate evs"
    by blast
  show ?case
  proof (cases "raises w h ?ev")
    case None
    then show ?thesis by (simp add: call_def)
  next
    case (Some e)
    with evs show ?thesis by (simp add: call_def)
  qed
qed

lemma dialog_fallback_emits: "emits is_locate (dialog_fallback w d)"
  unfolding dialog_fallback_def
  by (intro emits_and_then emits_count) (simp_all add: emits_ret emits_raise emits_and_then emits_count)

lemma wait_for_element_emits: "emits is_locate (wait_for_element w sel t d)"
proof (rule emitsI)
  fix h
  obtain r h1 where ts: "try_selectors w (selectors_of sel) t (selectors_of sel) h = (r, h1)"
    by (cases "try_selectors w (selectors_of sel) t (selectors_of sel) h")
  from try_selectors_emits [of w "selectors_of sel" t "selectors_of sel" h] ts
  obtain e1 where e1: "h1 = h @ e1" "list_all is_locate e1" by auto
  show "\<exists>evs. snd (wait_for_element w sel t d h) = h @ evs \<and> list_all is_locate evs"
  proof (cases r)
    case None
    from emitsD [OF dialog_fallback_emits, of w d h1]
    obtain e2 where "snd (dialog_fallback w d h1) = h1 @ e2" "list_all is_locate e2" by auto
    with ts e1 None show ?thesis by (simp add: wait_for_element_def)
  next
    case (Some l)
    with ts e1 show ?thesis by (simp add: wait_for_element_def)
  qed
qed

lemma try_selectors_found:
  "try_selectors w all t sels h = (Some l, h') \<Longrightarrow> l \<in> Loc ` set sels"
proof (induction sels arbitrary: h)
  case Nil
  then show ?case by simp
next
  case (Cons sel sels)
  then show ?case
    by (cases "raises w h (WaitVisible (Loc sel) (t div length all))") (auto simp add: call_def)
qed

lemma wait_for_element_returns: "returns (found_by (selectors_of sel)) (wait_for_element w sel t d)"
proof (unfold returns_def, intro allI impI)
  fix h x h' assume a: "wait_for_element w sel t d h = (Inr x, h')"
  obtain r h1 where ts: "try_selectors w (selectors_of sel) t (selectors_of sel) h = (r, h1)"
    by (cases "try_selectors w (selectors_of sel) t (selectors_of sel) h")
  show "found_by (selectors_of sel) x"
  proof (cases r)
    case None
    with a ts have "dialog_fallback w d h1 = (Inr x, h')" by (simp add: wait_for_element_def)
    then have "x = Within (Loc dialog_sel) textbox_sel"
      by (auto simp add: dialog_fallback_def and_then_def count_def ret_def raise_def
          split: option.splits if_splits)
    then show ?thesis by (simp add: found_by_def)
  next
    case (Some l)
    with a ts have "x = l" by (simp add: wait_for_element_def)
    with try_selectors_found ts Some show ?thesis by (auto simp add: found_by_def)
  qed
qed

text \<open>An element is looked for and then used.\<close>

lemma emits_wait_then:
  assumes "\<And>e. is_locate e \<Longrightarrow> P e"
    and "\<And>l. found_by (selectors_of sel) l \<Longrightarrow> emits P (f l)"
  shows "emits P (and_then (wait_for_element w sel t d) f)"
  by (rule emits_and_then_returns [OF emits_mono [OF wait_for_element_emits assms(1)]
        wait_for_element_returns assms(2)])

subsection \<open>The retry loop of \<open>fill_field_with_retry\<close>\<close>

lemma locate_field_emits: "emits is_locate (locate_field w field_type)"
  by (simp add: locate_field_def emits_raise wait_for_element_emits)

lemma locate_field_returns:
  "returns (found_by (field_selectors field_type)) (locate_field w field_type)"
  using wait_for_element_returns [of "Many to_selectors4" w 5000 "''To field''"]
    wait_for_element_returns [of "Many subject_selectors" w 5000 "''Subject field''"]
    wait_for_element_returns [of "Many body_selectors" w 5000 "''Message body''"]
  by (simp add: locate_field_def field_selectors_def selectors_of_def)
     (simp add: returns_def raise_def)

lemma and_then_Inr: "m h = (Inr x, h1) \<Longrightarrow> and_then m f h = f x h1"
  by (simp add: and_then_def)

lemma and_then_Inl: "m h = (Inl e, h1) \<Longrightarrow> and_then m f h = (Inl e, h1)"
  by (simp add: and_then_def)

lemma fill_once_emits:
  assumes "\<And>e. is_locate e \<Longrightarrow> P e"
    and "\<And>l. found_by (field_selectors field_type) l \<Longrightarrow>
           P (Click l) \<and> P (Clear l) \<and> P (Fill l val)"
  shows "emits P (fill_once w field_type val)"
proof -
  have 1: "emits P (locate_field w field_type)"
    by (rule emits_mono [OF locate_field_emits]) (rule assms(1))
  show ?thesis
    unfolding fill_once_def
  proof (rule emits_and_then_returns [OF 1 locate_field_returns])
    fix l assume "found_by (field_selectors field_type) l"
    from assms(2) [OF this]
    show "emits P (and_then (call w (Click l)) (\<lambda>_. and_then (call w (Clear l)) (\<lambda>_.
             and_then (call w (Fill l val)) (\<lambda>_. ret True))))"
      by (intro emits_and_then emits_call emits_ret) simp_all
  qed
qed

lemma fill_once_extends: "\<exists>evs. snd (fill_once w field_type val h) = h @ evs"
  using emitsD [OF fill_once_emits [of "\<lambda>e. True"]] by blast

lemma fill_start_extends: "\<exists>evs. fill_start w field_type val h k = h @ evs"
proof (induction k)
  case 0
  then show ?case by simp
next
  case (Suc k)
  then obtain e1 where e1: "fill_start w field_type val h k = h @ e1" by blast
  from fill_once_extends [of w field_type val "h @ e1"] obtain e2 where
    "snd (fill_once w field_type val (h @ e1)) = (h @ e1) @ e2" by blast
  with e1 show ?case by simp
qed

lemma fill_start_shift:
  "fill_start w field_type val h (Suc k)
     = fill_start w field_type val (snd (fill_once w field_type val h) @ [Sleep 1]) k"
  by (induction k) simp_all

lemma fill_once_returns_True: "fill_once w field_type val h = (Inr r, h') \<Longrightarrow> r = True"
  by (auto simp add: fill_once_def and_then_def ret_def split: prod.splits sum.splits)

text \<open>The loop from attempt \<open>a\<close> on, when the next \<open>k\<close> attempts fail and the one after returns.\<close>

lemma fill_loop_succeeds:
  "a + k < n \<Longrightarrow>
   (\<forall>j<k. isl (fst (fill_once w ft v (fill_start w ft v h j)))) \<Longrightarrow>
   fill_once w ft v (fill_start w ft v h k) = (Inr r, h') \<Longrightarrow>
   fill_loop w ft v (int n) (map int [a..<n]) h = (Inr True, h')"
proof (induction k arbitrary: a h)
  case 0
  from 0(1) have "[a..<n] = a # [Suc a..<n]" by (simp add: upt_conv_Cons)
  with 0(3) fill_once_returns_True [of w ft v h r h'] show ?case by simp
next
  case (Suc k)
  from Suc.prems(1) have u: "[a..<n] = a # [Suc a..<n]" by (simp add: upt_conv_Cons)
  from Suc.prems(2) have "isl (fst (fill_once w ft v h))" by (auto dest: spec [of _ 0])
  then obtain e h1 where f: "fill_once w ft v h = (Inl e, h1)"
    by (cases "fill_once w ft v h") (auto simp add: isl_def)
  have na: "int a \<noteq> int n - 1" using Suc.prems(1) by simp
  have p1: "Suc a + k < n" using Suc.prems(1) by simp
  have p2: "\<forall>j<k. isl (fst (fill_once w ft v (fill_start w ft v (h1 @ [Sleep 1]) j)))"
  proof (intro allI impI)
    fix j assume "j < k"
    then have "isl (fst (fill_once w ft v (fill_start w ft v h (Suc j))))"
      using Suc.prems(2) by (simp del: fill_start.simps)
    then show "isl (fst (fill_once w ft v (fill_start w ft v (h1 @ [Sleep 1]) j)))"
      using f by (simp only: fill_start_shift) simp
  qed
  have p3: "fill_once w ft v (fill_start w ft v (h1 @ [Sleep 1]) k) = (Inr r, h')"
    using Suc.prems(3) f by (simp only: fill_start_shift) simp
  from Suc.IH [OF p1 p2 p3] f na u show ?case
    by (simp add: and_then_def sleep_def)
qed

text \<open>The loop from attempt \<open>a\<close> on, when all the attempts that are left fail.\<close>

lemma fill_loop_exhausted:
  "a + k = n - 1 \<Longrightarrow> a < n \<Longrightarrow>
   (\<forall>j\<le>k. isl (fst (fill_once w ft v (fill_start w ft v h j)))) \<Longrightarrow>
   fill_loop w ft v (int n) (map int [a..<n]) h = fill_once w ft v (fill_start w ft v h k)"
proof (induction k arbitrary: a h)
  case 0
  from 0(2) have u: "[a..<n] = a # [Suc a..<n]" by (simp add: upt_conv_Cons)
  from 0(3) obtain e h1 where f: "fill_once w ft v h = (Inl e, h1)"
    by (cases "fill_once w ft v h") (auto simp add: isl_def)
  have "int a = int n - 1" using 0(1,2) by simp
  with f u show ?case by simp
next
  case (Suc k)
  from Suc.prems(2) have u: "[a..<n] = a # [Suc a..<n]" by (simp add: upt_conv_Cons)
  from Suc.prems(3) have "isl (fst (fill_once w ft v h))" by (auto dest: spec [of _ 0])
  then obtain e h1 where f: "fill_once w ft v h = (Inl e, h1)"
    by (cases "fill_once w ft v h") (auto simp add: isl_def)
  have na: "int a \<noteq> int n - 1" using Suc.prems(1,2) by simp
  have p1: "Suc a + k = n - 1" "Suc a < n" using Suc.prems(1,2) by simp_all
  have p2: "\<forall>j\<le>k. isl (fst (fill_once w ft v (fill_start w ft v (h1 @ [Sleep 1]) j)))"
  proof (intro allI impI)
    fix j assume "j \<le> k"
    then have "isl (fst (fill_once w ft v (fill_start w ft v h (Suc j))))"
      using Suc.prems(3) by (simp del: fill_start.simps)
    then show "isl (fst (fill_once w ft v (fill_start w ft v (h1 @ [Sleep 1]) j)))"
      using f by (simp only: fill_start_shift) simp
  qed
  have "fill_loop w ft v (int n) (map int [Suc a..<n]) (h1 @ [Sleep 1])
          = fill_once w ft v (fill_start w ft v (h1 @ [Sleep 1]) k)"
    by (rule Suc.IH [OF p1 p2])
  also have "\<dots> = fill_once w ft v (fill_start w ft v h (Suc k))"
    using f by (simp only: fill_start_shift) simp
  finally show ?case using f na u by (simp add: and_then_def sleep_def)
qed


subsection \<open>Counting the attempts\<close>

lemma dialog_fallback_emits_count: "(\<And>l. P (Count l)) \<Longrightarrow> emits P (dialog_fallback w d)"
  unfolding dialog_fallback_def
  by (intro emits_and_then emits_count) (simp_all add: emits_ret emits_raise emits_and_then emits_count)

lemma try_selectors_emits_waits:
  "\<exists>evs. snd (try_selectors w all t sels h) = h @ evs \<and>
         list_all (\<lambda>e. \<exists>s \<in> set sels. e = WaitVisible (Loc s) (t div length all)) evs"
proof (induction sels arbitrary: h)
  case Nil
  then show ?case by simp
next
  case (Cons sel sels)
  let ?ev = "WaitVisible (Loc sel) (t div length all)"
  from Cons [of "h @ [?ev]"] obtain evs where
    evs: "snd (try_selectors w all t sels (h @ [?ev])) = (h @ [?ev]) @ evs"
         "list_all (\<lambda>e. \<exists>s \<in> set sels. e = WaitVisible (Loc s) (t div length all)) evs" by blast
  show ?case
  proof (cases "raises w h ?ev")
    case None
    then show ?thesis by (simp add: call_def)
  next
    case (Some e)
    with evs show ?thesis
      by (auto simp add: call_def list_all_iff intro!: exI [of _ "?ev # evs"])
  qed
qed

text \<open>With distinct candidates, the wait on the first one opens the search and is not repeated.\<close>

lemma wait_for_element_opening:
  assumes "s \<notin> set ss"
  shows "\<exists>evs. snd (wait_for_element w (Many (s # ss)) t d h) = h @ candidate_wait t (s # ss) s # evs
           \<and> list_all (\<lambda>e. e \<noteq> candidate_wait t (s # ss) s) evs"
proof -
  let ?ev = "candidate_wait t (s # ss) s"
  have ev: "WaitVisible (Loc s) (t div length (s # ss)) = ?ev" by (simp add: candidate_wait_def)
  show ?thesis
  proof (cases "raises w h ?ev")
    case None
    then have "try_selectors w (s # ss) t (s # ss) h = (Some (Loc s), h @ [?ev])"
      by (simp only: try_selectors.simps ev) (simp add: call_def)
    then show ?thesis by (simp add: wait_for_element_def selectors_of_def)
  next
    case (Some e)
    then have ts0: "try_selectors w (s # ss) t (s # ss) h
                      = try_selectors w (s # ss) t ss (h @ [?ev])"
      by (simp only: try_selectors.simps ev) (simp add: call_def)
    obtain r h1 where ts: "try_selectors w (s # ss) t ss (h @ [?ev]) = (r, h1)"
      by (cases "try_selectors w (s # ss) t ss (h @ [?ev])")
    from try_selectors_emits_waits [of w "s # ss" t ss "h @ [?ev]"] ts
    obtain e1 where e1: "h1 = (h @ [?ev]) @ e1"
      "list_all (\<lambda>e. \<exists>s' \<in> set ss. e = WaitVisible (Loc s') (t div length (s # ss))) e1" by auto
    from e1(2) assms have n1: "list_all (\<lambda>e. e \<noteq> ?ev) e1"
      by (auto simp add: list_all_iff candidate_wait_def)
    show ?thesis
    proof (cases r)
      case None
      have "emits (\<lambda>e. e \<noteq> ?ev) (dialog_fallback w d)"
        by (rule dialog_fallback_emits_count) (simp add: candidate_wait_def)
      from emitsD [OF this, of h1]
      obtain e2 where e2: "snd (dialog_fallback w d h1) = h1 @ e2" "list_all (\<lambda>e. e \<noteq> ?ev) e2"
        by blast
      have "wait_for_element w (Many (s # ss)) t d h = dialog_fallback w d h1"
        using ts0 ts None by (simp add: wait_for_element_def selectors_of_def)
      with e1(1) n1 e2 show ?thesis
        by (intro exI [of _ "e1 @ e2"]) simp
    next
      case (Some l)
      have "wait_for_element w (Many (s # ss)) t d h = (Inr l, h1)"
        using ts0 ts Some by (simp add: wait_for_element_def selectors_of_def)
      with e1(1) n1 show ?thesis by (intro exI [of _ e1]) simp
    qed
  qed
qed

lemma fill_once_opening:
  assumes "field_selectors field_type = s # ss"
  shows "\<exists>evs. snd (fill_once w field_type val h) = h @ candidate_wait 5000 (s # ss) s # evs
           \<and> list_all (\<lambda>e. e \<noteq> candidate_wait 5000 (s # ss) s) evs"
proof -
  let ?ev = "candidate_wait 5000 (s # ss) s"
  have ev: "?ev = WaitVisible (Loc s) (5000 div length (s # ss))" by (simp add: candidate_wait_def)
  from assms have d: "s \<notin> set ss"
    by (auto simp add: field_selectors_def to_selectors4_def subject_selectors_def
        body_selectors_def split: if_splits)
  from assms obtain d' where l: "locate_field w field_type = wait_for_element w (Many (s # ss)) 5000 d'"
    by (auto simp add: field_selectors_def locate_field_def split: if_splits)
  obtain r h1 where w1: "wait_for_element w (Many (s # ss)) 5000 d' h = (r, h1)"
    by (cases "wait_for_element w (Many (s # ss)) 5000 d' h")
  from wait_for_element_opening [OF d, of w 5000 d' h] w1
  obtain e1 where e1: "h1 = h @ ?ev # e1" "list_all (\<lambda>e. e \<noteq> ?ev) e1" by auto
  show ?thesis
  proof (cases r)
    case (Inl e)
    have "fill_once w field_type val h = (Inl e, h1)"
      unfolding fill_once_def l using w1 Inl by (simp add: and_then_Inl)
    with e1 show ?thesis by simp
  next
    case (Inr f)
    have "emits (\<lambda>e. e \<noteq> ?ev)
            (and_then (call w (Click f)) (\<lambda>_. and_then (call w (Clear f)) (\<lambda>_.
             and_then (call w (Fill f val)) (\<lambda>_. ret True))))"
      by (intro emits_and_then emits_call emits_ret) (simp_all add: ev)
    from emitsD [OF this, of h1] obtain e2 where
      "snd (and_then (call w (Click f)) (\<lambda>_. and_then (call w (Clear f)) (\<lambda>_.
             and_then (call w (Fill f val)) (\<lambda>_. ret True))) h1) = h1 @ e2"
      "list_all (\<lambda>e. e \<noteq> ?ev) e2" by blast
    moreover have "fill_once w field_type val h =
        and_then (call w (Click f)) (\<lambda>_. and_then (call w (Clear f)) (\<lambda>_.
             and_then (call w (Fill f val)) (\<lambda>_. ret True))) h1"
      unfolding fill_once_def l using w1 Inr by (simp add: and_then_Inr)
    ultimately show ?thesis using e1
      by (intro exI [of _ "e1 @ e2"]) simp
  qed
qed

lemma attempts_made_append:
  "attempts_made ft (xs @ ys) = attempts_made ft xs + attempts_made ft ys"
  by (simp add: attempts_made_def split: list.splits)

lemma fill_once_one_attempt:
  assumes "field_selectors field_type \<noteq> []"
  shows "\<exists>evs. snd (fill_once w field_type val h) = h @ evs \<and> attempts_made field_type evs = 1"
proof -
  from assms obtain s ss where f: "field_selectors field_type = s # ss"
    by (cases "field_selectors field_type") auto
  from fill_once_opening [OF f, of w val h] obtain evs where
    e: "snd (fill_once w field_type val h) = h @ candidate_wait 5000 (s # ss) s # evs"
       "list_all (\<lambda>e. e \<noteq> candidate_wait 5000 (s # ss) s) evs" by blast
  from e(2) have "filter (\<lambda>e. e = candidate_wait 5000 (s # ss) s) evs = []"
    by (simp add: filter_empty_conv list_all_iff)
  with e(1) f show ?thesis
    by (intro exI [of _ "candidate_wait 5000 (s # ss) s # evs"]) (simp add: attempts_made_def)
qed

lemma fill_start_attempts:
  assumes "field_selectors field_type \<noteq> []"
  shows "\<exists>evs. fill_start w field_type val h k = h @ evs \<and> attempts_made field_type evs = k"
proof (induction k)
  case 0
  show ?case by (simp add: attempts_made_def split: list.splits)
next
  case (Suc k)
  then obtain e1 where e1: "fill_start w field_type val h k = h @ e1"
    "attempts_made field_type e1 = k" by blast
  from fill_once_one_attempt [OF assms, of w val "h @ e1"] obtain e2 where
    e2: "snd (fill_once w field_type val (h @ e1)) = (h @ e1) @ e2"
    "attempts_made field_type e2 = 1" by blast
  have "attempts_made field_type [Sleep 1] = 0"
    by (simp add: attempts_made_def candidate_wait_def split: list.splits)
  with e1 e2 show ?case
    by (intro exI [of _ "e1 @ e2 @ [Sleep 1]"]) (simp add: attempts_made_append)
qed

lemma fill_once_valid_field:
  "fill_once w field_type val h = (Inr r, h') \<Longrightarrow> field_selectors field_type \<noteq> []"
  by (auto simp add: fill_once_def locate_field_def field_selectors_def and_then_def raise_def
      to_selectors4_def subject_selectors_def body_selectors_def split: if_splits)

subsection \<open>What the stages of an attempt add to the history\<close>

lemma open_compose_emits:
  assumes "\<And>e. is_locate e \<Longrightarrow> P e"
    and "\<And>l. found_by [compose_sel] l \<Longrightarrow> P (Click l)"
    and "P (Sleep 1)"
  shows "emits P (open_compose w)"
  unfolding open_compose_def
proof (rule emits_wait_then [OF assms(1)])
  fix l assume "found_by (selectors_of (One compose_sel)) l"
  then have c: "P (Click l)" using assms(2) by (simp add: selectors_of_def)
  show "emits P (and_then (call w (Click l)) (\<lambda>_.
          and_then (wait_for_element w (One dialog_sel) 10000 ''compose dialog'') (\<lambda>_. sleep 1)))"
    by (intro emits_and_then emits_call emits_sleep c assms(3))
       (rule emits_mono [OF wait_for_element_emits assms(1)])
qed

lemma fill_addresses_emits:
  assumes "\<And>e. is_locate e \<Longrightarrow> P e"
    and "\<And>l a. found_by sels l \<Longrightarrow> P (Click l) \<and> P (Fill l a)"
    and "P (Press ''Enter'')"
  shows "emits P (fill_addresses w sels d emails)"
proof (induction emails)
  case Nil
  show ?case by (simp add: emits_ret)
next
  case (Cons email emails)
  show ?case
    unfolding fill_addresses.simps
  proof (rule emits_wait_then [OF assms(1)])
    fix l assume "found_by (selectors_of (Many sels)) l"
    then have c: "P (Click l)" "P (Fill l email)" using assms(2) by (simp_all add: selectors_of_def)
    show "emits P (and_then (call w (Click l)) (\<lambda>_. and_then (call w (Fill l email)) (\<lambda>_.
            and_then (call w (Press ''Enter'')) (\<lambda>_. fill_addresses w sels d emails))))"
      by (intro emits_and_then emits_call c assms(3) Cons)
  qed
qed

lemma fill_optional_emits:
  assumes "\<And>e. is_locate e \<Longrightarrow> P e"
    and "\<And>l a. found_by sels l \<Longrightarrow> P (Click l) \<and> P (Fill l a)"
    and "P (Press ''Enter'')"
  shows "emits P (fill_optional w sels d v)"
  using fill_addresses_emits [of P sels w d, OF assms]
  by (simp add: fill_optional_def emits_ret split: option.splits)

lemma fill_recipients_emits:
  assumes "\<And>e. is_locate e \<Longrightarrow> P e"
    and "\<And>l a. found_by to_selectors l \<or> found_by cc_selectors l \<or> found_by bcc_selectors l
           \<Longrightarrow> P (Click l) \<and> P (Fill l a)"
    and "P (Press ''Enter'')"
  shows "emits P (fill_recipients w ed)"
  unfolding fill_recipients_def
  by (intro emits_and_then emits_getitem fill_addresses_emits [OF assms(1)]
      fill_optional_emits [OF assms(1)])
     (simp_all add: assms(2) assms(3))

lemma fill_loop_emits:
  assumes "\<And>e. is_locate e \<Longrightarrow> P e"
    and "\<And>l. found_by (field_selectors field_type) l \<Longrightarrow>
           P (Click l) \<and> P (Clear l) \<and> P (Fill l val)"
    and "P (Sleep 1)"
  shows "emits P (fill_loop w field_type val n attempts)"
proof (induction attempts)
  case Nil
  show ?case by (simp add: emits_def)
next
  case (Cons attempt attempts)
  show ?case
  proof (rule emitsI)
    fix h
    obtain r h1 where f: "fill_once w field_type val h = (r, h1)"
      by (cases "fill_once w field_type val h")
    from emitsD [OF fill_once_emits [of P field_type val w, OF assms(1,2)], of h] f
    obtain e1 where e1: "h1 = h @ e1" "list_all P e1" by auto
    from emitsD [OF Cons, of "h1 @ [Sleep 1]"] obtain e2 where
      e2: "snd (fill_loop w field_type val n attempts (h1 @ [Sleep 1])) = (h1 @ [Sleep 1]) @ e2"
          "list_all P e2" by blast
    show "\<exists>evs. snd (fill_loop w field_type val n (attempt # attempts) h) = h @ evs
            \<and> list_all P evs"
    proof (cases r)
      case (Inl e)
      with f e1 e2 assms(3) show ?thesis
        by (cases "attempt = n - 1") (simp_all add: and_then_def sleep_def)
    next
      case (Inr b)
      with f e1 show ?thesis by simp
    qed
  qed
qed

lemma fill_subject_emits:
  assumes "\<And>e. is_locate e \<Longrightarrow> P e"
    and "\<And>l a. found_by subject_selectors l \<Longrightarrow> P (Click l) \<and> P (Clear l) \<and> P (Fill l a)"
    and "P (Sleep 1)"
  shows "emits P (fill_subject w ed)"
  unfolding fill_subject_def fill_field_with_retry_def
  by (intro emits_and_then emits_getitem emits_ret fill_loop_emits [OF assms(1)])
     (simp_all add: field_selectors_def assms(2) assms(3) [unfolded One_nat_def])

lemma fill_body_emits:
  assumes "\<And>e. is_locate e \<Longrightarrow> P e"
    and "\<And>l a. found_by body_selectors l \<Longrightarrow> P (Click l) \<and> P (Fill l a)"
  shows "emits P (fill_body w ed)"
  unfolding fill_body_def
proof (rule emits_wait_then [OF assms(1)])
  fix l assume "found_by (selectors_of (Many body_selectors)) l"
  then have c: "\<And>a. P (Click l) \<and> P (Fill l a)" using assms(2) by (simp add: selectors_of_def)
  show "emits P (and_then (call w (Click l)) (\<lambda>_. and_then (getitem (body ed) ''body'') (\<lambda>b.
          call w (Fill l b))))"
    by (intro emits_and_then emits_call emits_getitem) (simp_all add: c)
qed

lemma click_send_emits:
  assumes "\<And>e. is_locate e \<Longrightarrow> P e"
    and "\<And>l. found_by send_selectors l \<Longrightarrow> P (Click l)"
    and "P (WaitForSelector sent_marker 10000)"
  shows "emits P (click_send w)"
  unfolding click_send_def
proof (rule emits_wait_then [OF assms(1)])
  fix l assume "found_by (selectors_of (Many send_selectors)) l"
  then have c: "P (Click l)" using assms(2) by (simp add: selectors_of_def)
  show "emits P (and_then (call w (Click l)) (\<lambda>_. call w (WaitForSelector sent_marker 10000)))"
    by (intro emits_and_then emits_call c assms(3))
qed

text \<open>An attempt only looks for elements, clicks, clears, fills, presses, sleeps and waits.\<close>

lemma send_attempt_emits:
  assumes "\<And>e. is_locate e \<Longrightarrow> P e"
    and "\<And>l a. P (Click l) \<and> P (Clear l) \<and> P (Fill l a)"
    and "\<And>k. P (Press k)" and "\<And>n. P (Sleep n)" and "\<And>s t. P (WaitForSelector s t)"
  shows "emits P (send_attempt w ed)"
  unfolding send_attempt_def
  by (intro emits_and_then emits_ret open_compose_emits [OF assms(1)]
      fill_recipients_emits [OF assms(1)] fill_subject_emits [OF assms(1)]
      fill_body_emits [OF assms(1)] click_send_emits [OF assms(1)])
     (simp_all add: assms(2) assms(3) assms(4) assms(5))

lemma send_attempt_no_snapshot: "emits (\<lambda>e. e \<noteq> Makedirs ''screens'') (send_attempt w ed)"
  by (rule send_attempt_emits) (auto elim: is_locate.elims)

subsection \<open>The retry loop of \<open>send_email\<close>\<close>

lemma send_start_shift:
  "send_start w ed h (Suc k) = send_start w ed (snd (send_attempt w ed h) @ [Sleep 2]) k"
  by (induction k) simp_all

lemma send_start_emits:
  assumes "emits P (send_attempt w ed)" and "P (Sleep 2)"
  shows "\<exists>evs. send_start w ed h k = h @ evs \<and> list_all P evs"
proof (induction k)
  case 0
  show ?case by simp
next
  case (Suc k)
  then obtain e1 where e1: "send_start w ed h k = h @ e1" "list_all P e1" by blast
  from emitsD [OF assms(1), of "h @ e1"] obtain e2 where
    "snd (send_attempt w ed (h @ e1)) = (h @ e1) @ e2" "list_all P e2" by blast
  with e1 assms(2) show ?case by (intro exI [of _ "e1 @ e2 @ [Sleep 2]"]) simp
qed

lemma fill_start_emits:
  assumes "emits P (fill_once w ft v)" and "P (Sleep 1)"
  shows "\<exists>evs. fill_start w ft v h k = h @ evs \<and> list_all P evs"
proof (induction k)
  case 0
  show ?case by simp
next
  case (Suc k)
  then obtain e1 where e1: "fill_start w ft v h k = h @ e1" "list_all P e1" by blast
  from emitsD [OF assms(1), of "h @ e1"] obtain e2 where
    "snd (fill_once w ft v (h @ e1)) = (h @ e1) @ e2" "list_all P e2" by blast
  with e1 assms(2) show ?case by (intro exI [of _ "e1 @ e2 @ [Sleep 1]"]) simp
qed

text \<open>The loop from attempt \<open>a\<close> on, when all the attempts that are left fail.\<close>

lemma send_loop_exhausted:
  "a + k = n - 1 \<Longrightarrow> a < n \<Longrightarrow>
   (\<forall>j\<le>k. isl (fst (send_attempt w ed (send_start w ed h j)))) \<Longrightarrow>
   \<exists>e h3. send_attempt w ed (send_start w ed h k) = (Inl e, h3) \<and>
     send_loop w ed (int n) (map int [a..<n]) h =
       (Inl e, snd (save_screenshot w (''send_error_attempt_'' @ str_int (int n)) h3))"
proof (induction k arbitrary: a h)
  case 0
  from 0(2) have u: "[a..<n] = a # [Suc a..<n]" by (simp add: upt_conv_Cons)
  from 0(3) obtain e h1 where f: "send_attempt w ed h = (Inl e, h1)"
    by (cases "send_attempt w ed h") (auto simp add: isl_def)
  have l: "int a = int n - 1" "int a + 1 = int n" using 0(1,2) by simp_all
  obtain r h' where s: "save_screenshot w (''send_error_attempt_'' @ str_int (int n)) h1 = (Inr r, h')"
    using save_screenshot_total by blast
  from f u l s show ?case by simp
next
  case (Suc k)
  from Suc.prems(2) have u: "[a..<n] = a # [Suc a..<n]" by (simp add: upt_conv_Cons)
  from Suc.prems(3) have "isl (fst (send_attempt w ed h))" by (auto dest: spec [of _ 0])
  then obtain e h1 where f: "send_attempt w ed h = (Inl e, h1)"
    by (cases "send_attempt w ed h") (auto simp add: isl_def)
  have na: "int a \<noteq> int n - 1" using Suc.prems(1,2) by simp
  have p1: "Suc a + k = n - 1" "Suc a < n" using Suc.prems(1,2) by simp_all
  have p2: "\<forall>j\<le>k. isl (fst (send_attempt w ed (send_start w ed (h1 @ [Sleep 2]) j)))"
  proof (intro allI impI)
    fix j assume "j \<le> k"
    then have "isl (fst (send_attempt w ed (send_start w ed h (Suc j))))"
      using Suc.prems(3) by (simp del: send_start.simps)
    then show "isl (fst (send_attempt w ed (send_start w ed (h1 @ [Sleep 2]) j)))"
      using f by (simp only: send_start_shift) simp
  qed
  from Suc.IH [OF p1 p2] obtain e' h3 where
    r: "send_attempt w ed (send_start w ed (h1 @ [Sleep 2]) k) = (Inl e', h3)"
       "send_loop w ed (int n) (map int [Suc a..<n]) (h1 @ [Sleep 2]) =
          (Inl e', snd (save_screenshot w (''send_error_attempt_'' @ str_int (int n)) h3))"
    by blast
  have "send_start w ed h (Suc k) = send_start w ed (h1 @ [Sleep 2]) k"
    using f by (simp only: send_start_shift) simp
  with r f na u show ?case by (simp add: and_then_def sleep_def del: send_start.simps)
qed

lemma save_screenshot_one_snapshot:
  "\<exists>evs. snd (save_screenshot w label h) = h @ evs \<and> snapshots_taken evs = 1"
  by (simp add: save_screenshot_def and_then_def call_def ret_def Let_def snapshots_taken_def
      split: option.splits)

lemma no_snapshot: "list_all (\<lambda>e. e \<noteq> Makedirs ''screens'') evs \<Longrightarrow> snapshots_taken evs = 0"
  by (simp add: snapshots_taken_def list_all_iff)

lemma snapshots_taken_append:
  "snapshots_taken (xs @ ys) = snapshots_taken xs + snapshots_taken ys"
  by (simp add: snapshots_taken_def)

lemma fill_once_no_snapshot: "emits (\<lambda>e. e \<noteq> Makedirs ''screens'') (fill_once w ft v)"
  by (rule fill_once_emits) (auto elim: is_locate.elims)

lemma str_int_3: "str_int 3 = ''3''"
  by (simp add: str_int_def digit_def)

subsection \<open>Counting the send clicks\<close>

lemma at_mostI: "(\<And>h. \<exists>evs. snd (m h) = h @ evs \<and> length (filter Q evs) \<le> n) \<Longrightarrow> at_most Q n m"
  by (simp add: at_most_def)

lemma at_mostD: "at_most Q n m \<Longrightarrow> \<exists>evs. snd (m h) = h @ evs \<and> length (filter Q evs) \<le> n"
  by (simp add: at_most_def)

lemma no_Q: "list_all (\<lambda>e. \<not> Q e) evs \<Longrightarrow> filter Q evs = []"
  by (simp add: filter_empty_conv list_all_iff)

lemma at_most_and_then0:
  assumes "emits (\<lambda>e. \<not> Q e) m" and "\<And>x. at_most Q n (f x)"
  shows "at_most Q n (and_then m f)"
proof (rule at_mostI)
  fix h
  obtain r h1 where m: "m h = (r, h1)" by (cases "m h")
  from emitsD [OF assms(1), of h] m obtain e1 where
    e1: "h1 = h @ e1" "list_all (\<lambda>e. \<not> Q e) e1" by auto
  show "\<exists>evs. snd (and_then m f h) = h @ evs \<and> length (filter Q evs) \<le> n"
  proof (cases r)
    case (Inl e)
    with m e1 show ?thesis by (simp add: and_then_def no_Q)
  next
    case (Inr x)
    from at_mostD [OF assms(2), of x h1] obtain e2 where
      "snd (f x h1) = h1 @ e2" "length (filter Q e2) \<le> n" by blast
    with m e1 Inr show ?thesis by (simp add: and_then_def no_Q)
  qed
qed

lemma at_most_then_emits:
  assumes "at_most Q n m" and "\<And>x. emits (\<lambda>e. \<not> Q e) (f x)"
  shows "at_most Q n (and_then m f)"
proof (rule at_mostI)
  fix h
  obtain r h1 where m: "m h = (r, h1)" by (cases "m h")
  from at_mostD [OF assms(1), of h] m obtain e1 where
    e1: "h1 = h @ e1" "length (filter Q e1) \<le> n" by auto
  show "\<exists>evs. snd (and_then m f h) = h @ evs \<and> length (filter Q evs) \<le> n"
  proof (cases r)
    case (Inl e)
    with m e1 show ?thesis by (simp add: and_then_def)
  next
    case (Inr x)
    from emitsD [OF assms(2), of x h1] obtain e2 where
      "snd (f x h1) = h1 @ e2" "list_all (\<lambda>e. \<not> Q e) e2" by blast
    with m e1 Inr show ?thesis by (simp add: and_then_def no_Q)
  qed
qed

lemma not_send_click [simp]:
  "\<not> is_send_click (WaitVisible l t)" "\<not> is_send_click (Count l)"
  "\<not> is_send_click (Clear l)" "\<not> is_send_click (Fill l a)" "\<not> is_send_click (Press k)"
  "\<not> is_send_click (Sleep n)" "\<not> is_send_click (WaitForSelector s t)"
  "\<not> is_send_click (Makedirs d)" "\<not> is_send_click (Screenshot p)"
  "\<not> is_send_click (Click (Within l s))"
  by (auto simp add: is_send_click_def)

lemma locate_not_send_click: "is_locate e \<Longrightarrow> \<not> is_send_click e"
  by (erule is_locate.elims) simp_all

lemma other_field_not_send_click:
  "found_by [compose_sel] l \<or> found_by to_selectors l \<or> found_by cc_selectors l \<or>
   found_by bcc_selectors l \<or> found_by subject_selectors l \<or> found_by body_selectors l
   \<Longrightarrow> \<not> is_send_click (Click l)"
  by (auto simp add: found_by_def is_send_click_def compose_sel_def to_selectors_def
      cc_selectors_def bcc_selectors_def subject_selectors_def body_selectors_def
      send_selectors_def)

lemma click_then_wait_at_most:
  "at_most is_send_click (Suc 0)
     (and_then (call w (Click l)) (\<lambda>_. call w (WaitForSelector sent_marker 10000)))"
proof (rule at_mostI)
  fix h
  show "\<exists>evs. snd (and_then (call w (Click l))
                     (\<lambda>_. call w (WaitForSelector sent_marker 10000)) h) = h @ evs
          \<and> length (filter is_send_click evs) \<le> Suc 0"
  proof (cases "raises w h (Click l)")
    case None
    then show ?thesis
      by (intro exI [of _ "[Click l, WaitForSelector sent_marker 10000]"])
         (simp add: and_then_def call_def split: option.splits)
  next
    case (Some e)
    then show ?thesis
      by (intro exI [of _ "[Click l]"]) (simp add: and_then_def call_def)
  qed
qed

lemma click_send_at_most: "at_most is_send_click (Suc 0) (click_send w)"
proof -
  have 1: "emits (\<lambda>e. \<not> is_send_click e)
             (wait_for_element w (Many send_selectors) 5000 ''Send button'')"
    by (rule emits_mono [OF wait_for_element_emits]) (rule locate_not_send_click)
  show ?thesis
    unfolding click_send_def by (rule at_most_and_then0 [OF 1 click_then_wait_at_most])
qed

lemma send_attempt_at_most: "at_most is_send_click (Suc 0) (send_attempt w ed)"
proof -
  have 1: "emits (\<lambda>e. \<not> is_send_click e) (open_compose w)"
    by (rule open_compose_emits) (simp_all add: locate_not_send_click other_field_not_send_click)
  have 2: "emits (\<lambda>e. \<not> is_send_click e) (fill_recipients w ed)"
    by (rule fill_recipients_emits) (auto simp add: locate_not_send_click other_field_not_send_click)
  have 3: "emits (\<lambda>e. \<not> is_send_click e) (fill_subject w ed)"
    by (rule fill_subject_emits) (simp_all add: locate_not_send_click other_field_not_send_click)
  have 4: "emits (\<lambda>e. \<not> is_send_click e) (fill_body w ed)"
    by (rule fill_body_emits) (simp_all add: locate_not_send_click other_field_not_send_click)
  have 5: "at_most is_send_click (Suc 0) (and_then (click_send w) (\<lambda>_. ret True))"
    by (rule at_most_then_emits [OF click_send_at_most]) (rule emits_ret)
  show ?thesis
    unfolding send_attempt_def
    by (rule at_most_and_then0 [OF 1] at_most_and_then0 [OF 2] at_most_and_then0 [OF 3]
        at_most_and_then0 [OF 4] 5)+
qed

lemma save_screenshot_no_send_click:
  "\<exists>evs. snd (save_screenshot w label h) = h @ evs \<and> filter is_send_click evs = []"
  by (simp add: save_screenshot_def and_then_def call_def ret_def Let_def split: option.splits)

lemma send_loop_at_most: "at_most is_send_click (length attempts) (send_loop w ed n attempts)"
proof (induction attempts)
  case Nil
  show ?case by (simp add: at_most_def)
next
  case (Cons attempt attempts)
  show ?case
  proof (rule at_mostI)
    fix h
    obtain r h1 where f: "send_attempt w ed h = (r, h1)" by (cases "send_attempt w ed h")
    from at_mostD [OF send_attempt_at_most, of w ed h] f obtain e1 where
      e1: "h1 = h @ e1" "length (filter is_send_click e1) \<le> Suc 0" by auto
    show "\<exists>evs. snd (send_loop w ed n (attempt # attempts) h) = h @ evs \<and>
            length (filter is_send_click evs) \<le> length (attempt # attempts)"
    proof (cases r)
      case (Inr b)
      with f e1 show ?thesis by simp
    next
      case (Inl e)
      show ?thesis
      proof (cases "attempt = n - 1")
        case True
        obtain r' h2 where s: "save_screenshot w (''send_error_attempt_'' @ str_int (attempt + 1)) h1
            = (Inr r', h2)" using save_screenshot_total by blast
        from save_screenshot_no_send_click [of w "''send_error_attempt_'' @ str_int (attempt + 1)" h1] s
        obtain e2 where "h2 = h1 @ e2" "filter is_send_click e2 = []" by auto
        with f e1 Inl True s show ?thesis by simp
      next
        case False
        from at_mostD [OF Cons, of "h1 @ [Sleep 2]"] obtain e2 where
          "snd (send_loop w ed n attempts (h1 @ [Sleep 2])) = (h1 @ [Sleep 2]) @ e2"
          "length (filter is_send_click e2) \<le> length attempts" by blast
        with f e1 Inl False show ?thesis by (simp add: and_then_def sleep_def)
      qed
    qed
  qed
qed

lemma send_email_at_most: "at_most is_send_click 3 (send_email w ed)"
proof -
  have "at_most is_send_click (length [0, 1, 2 :: int]) (send_loop w ed 3 [0, 1, 2])"
    by (rule send_loop_at_most)
  then have 1: "at_most is_send_click 3 (send_loop w ed 3 [0, 1, 2])"
    by (simp add: numeral_3_eq_3)
  show ?thesis
    unfolding send_email_def range_3
    by (intro at_most_and_then0 emits_getitem 1)
qed

subsection \<open>The restart after a failed attempt\<close>

lemma wait_for_element_One: "wait_for_element w (One s) = wait_for_element w (Many [s])"
  by (intro ext) (simp add: wait_for_element_def selectors_of_def)

lemma and_then_opening:
  assumes "\<And>h. \<exists>evs. snd (m h) = h @ ev # evs" and "\<And>x. emits (\<lambda>e. True) (f x)"
  shows "\<exists>evs. snd (and_then m f h) = h @ ev # evs"
proof -
  obtain r h1 where m: "m h = (r, h1)" by (cases "m h")
  from assms(1) [of h] m obtain e1 where e1: "h1 = h @ ev # e1" by auto
  show ?thesis
  proof (cases r)
    case (Inl e)
    with m e1 show ?thesis by (simp add: and_then_def)
  next
    case (Inr x)
    from emitsD [OF assms(2), of x h1] obtain e2 where "snd (f x h1) = h1 @ e2" by blast
    with m e1 Inr show ?thesis by (simp add: and_then_def)
  qed
qed

lemma send_attempt_opening:
  "\<exists>evs. snd (send_attempt w ed h) = h @ WaitVisible (Loc compose_sel) 10000 # evs"
proof -
  have 1: "\<And>h. \<exists>evs. snd (wait_for_element w (One compose_sel) 10000 ''compose button'' h)
                 = h @ WaitVisible (Loc compose_sel) 10000 # evs"
    using wait_for_element_opening [of compose_sel "[]" w 10000 "''compose button''"]
    by (auto simp add: wait_for_element_One candidate_wait_def)
  have 2: "\<And>h. \<exists>evs. snd (open_compose w h) = h @ WaitVisible (Loc compose_sel) 10000 # evs"
    unfolding open_compose_def
    by (rule and_then_opening [OF 1])
       (intro emits_and_then emits_call emits_sleep emits_mono [OF wait_for_element_emits]; simp)
  show ?thesis
    unfolding send_attempt_def
    by (rule and_then_opening [OF 2])
       (intro emits_and_then emits_ret fill_recipients_emits fill_subject_emits fill_body_emits
         click_send_emits; simp)
qed

lemma send_loop_extends: "\<exists>evs. snd (send_loop w ed n attempts h) = h @ evs"
  using at_mostD [OF send_loop_at_most] by blast

lemma and_then_assoc: "and_then (and_then m f) g = and_then m (\<lambda>x. and_then (f x) g)"
  by (intro ext) (simp add: and_then_def split: prod.splits sum.splits)

lemma send_attempt_until_send:
  "send_attempt w ed =
     and_then (until_send w ed) (\<lambda>send_btn.
     and_then (call w (Click send_btn)) (\<lambda>_.
     and_then (call w (WaitForSelector sent_marker 10000)) (\<lambda>_. ret True)))"
  by (simp add: send_attempt_def until_send_def click_send_def and_then_assoc)

lemma send_attempt_no_marker:
  "send_attempt page_no_marker draft0 h =
     (Inl (TimeoutError ''Timeout 10000ms exceeded.''),
      h @ [WaitVisible (Loc compose_sel) 10000, Click (Loc compose_sel),
           WaitVisible (Loc dialog_sel) 10000, Sleep 1,
           WaitVisible (Loc (to_selectors ! 0)) 1666, Click (Loc (to_selectors ! 0)),
           Fill (Loc (to_selectors ! 0)) ''a@x'', Press ''Enter'',
           WaitVisible (Loc (subject_selectors ! 0)) 2500, Click (Loc (subject_selectors ! 0)),
           Clear (Loc (subject_selectors ! 0)), Fill (Loc (subject_selectors ! 0)) ''Hello'',
           WaitVisible (Loc (body_selectors ! 0)) 1666, Click (Loc (body_selectors ! 0)),
           Fill (Loc (body_selectors ! 0)) ''Text'',
           WaitVisible (Loc (send_selectors ! 0)) 1250, Click (Loc (send_selectors ! 0)),
           WaitForSelector sent_marker 10000])"
proof -
  have d: "(5000::nat) div Suc (Suc 0) = 2500"
    by (simp add: numeral_2_eq_2 [symmetric])
  show ?thesis
    by (simp add: pipeline_simps page_no_marker_def call_def count_def and_then_def ret_def
        sleep_def wait_for_element_def selectors_of_def getitem_def draft0_def d sent_marker_def)
qed

subsection \<open>The recipients of an attempt\<close>

lemma and_then_InrE:
  "and_then m f h = (Inr r, h') \<Longrightarrow> \<exists>x h1. m h = (Inr x, h1) \<and> f x h1 = (Inr r, h')"
  by (auto simp add: and_then_def split: prod.splits sum.splits)

lemma recipient_blockI:
  assumes "found_by (s # ss) f" and "ws \<noteq> []" and "list_all is_locate ws"
    and "hd ws = candidate_wait 5000 (s # ss) s"
  shows "recipient_block (s # ss) a (ws @ [Click f, Fill f a, Press ''Enter''])"
  using assms by (auto simp add: recipient_block_def found_by_def list_ex_iff)

lemma wait_for_element_located:
  assumes "s \<notin> set ss" and "wait_for_element w (Many (s # ss)) t d h = (Inr f, h1)"
  shows "\<exists>ws. h1 = h @ ws \<and> ws \<noteq> [] \<and> hd ws = candidate_wait t (s # ss) s \<and>
              list_all is_locate ws \<and> found_by (s # ss) f"
proof -
  from wait_for_element_opening [OF assms(1), of w t d h] assms(2) obtain evs where
    1: "h1 = h @ candidate_wait t (s # ss) s # evs" by auto
  from emitsD [OF wait_for_element_emits, of w "Many (s # ss)" t d h] assms(2) obtain ws where
    2: "h1 = h @ ws" "list_all is_locate ws" by auto
  from wait_for_element_returns [of "Many (s # ss)" w t d] assms(2)
  have 3: "found_by (s # ss) f" unfolding returns_def by (auto simp add: selectors_of_def)
  from 1 2 have "ws = candidate_wait t (s # ss) s # evs" by simp
  with 2 3 show ?thesis by auto
qed

lemma fill_addresses_blocks:
  assumes "s \<notin> set ss"
  shows "fill_addresses w (s # ss) d emails h = (Inr u, h') \<Longrightarrow>
         \<exists>blocks. h' = h @ concat blocks \<and> list_all2 (recipient_block (s # ss)) emails blocks"
proof (induction emails arbitrary: h)
  case Nil
  then show ?case by (simp add: ret_def)
next
  case (Cons email emails)
  from Cons.prems obtain f h1 where
    1: "wait_for_element w (Many (s # ss)) 5000 d h = (Inr f, h1)"
    and 2: "and_then (call w (Click f)) (\<lambda>_. and_then (call w (Fill f email)) (\<lambda>_.
              and_then (call w (Press ''Enter'')) (\<lambda>_. fill_addresses w (s # ss) d emails))) h1
            = (Inr u, h')"
    by (auto dest: and_then_InrE)
  from 2 have 3: "fill_addresses w (s # ss) d emails (h1 @ [Click f, Fill f email, Press ''Enter''])
                    = (Inr u, h')"
    by (auto simp add: and_then_def call_def split: option.splits)
  from wait_for_element_located [OF assms 1] obtain ws where
    ws: "h1 = h @ ws" "ws \<noteq> []" "hd ws = candidate_wait 5000 (s # ss) s" "list_all is_locate ws"
        "found_by (s # ss) f" by blast
  from Cons.IH [OF 3] obtain blocks where
    b: "h' = (h1 @ [Click f, Fill f email, Press ''Enter'']) @ concat blocks"
       "list_all2 (recipient_block (s # ss)) emails blocks" by blast
  have "recipient_block (s # ss) email (ws @ [Click f, Fill f email, Press ''Enter''])"
    by (rule recipient_blockI [OF ws(5) ws(2) ws(4) ws(3)])
  with b ws(1) show ?case
    by (intro exI [of _ "(ws @ [Click f, Fill f email, Press ''Enter'']) # blocks"]) simp
qed

lemma fill_optional_blocks:
  assumes "s \<notin> set ss" and "fill_optional w (s # ss) d v h = (Inr u, h')"
  shows "\<exists>blocks. h' = h @ concat blocks \<and>
           list_all2 (recipient_block (s # ss))
             (case v of None \<Rightarrow> [] | Some r \<Rightarrow> if truthy v then as_list r else []) blocks"
proof (cases v)
  case None
  with assms(2) show ?thesis by (simp add: fill_optional_def ret_def)
next
  case (Some r)
  show ?thesis
  proof (cases "truthy v")
    case True
    with Some assms(2) have "fill_addresses w (s # ss) d (as_list r) h = (Inr u, h')"
      by (simp add: fill_optional_def)
    from fill_addresses_blocks [OF assms(1) this] Some True show ?thesis by simp
  next
    case False
    with Some assms(2) show ?thesis by (simp add: fill_optional_def ret_def)
  qed
qed

lemma fill_recipients_blocks:
  assumes "fill_recipients w ed h = (Inr u, h')"
  shows "\<exists>blocks. h' = h @ concat blocks \<and>
           list_all2 (\<lambda>(sels, a) b. recipient_block sels a b) (recipient_plan ed) blocks"
proof -
  obtain s1 ss1 where t: "to_selectors = s1 # ss1" "s1 \<notin> set ss1"
    by (simp add: to_selectors_def)
  obtain s2 ss2 where c: "cc_selectors = s2 # ss2" "s2 \<notin> set ss2"
    by (simp add: cc_selectors_def)
  obtain s3 ss3 where b: "bcc_selectors = s3 # ss3" "s3 \<notin> set ss3"
    by (simp add: bcc_selectors_def)
  from assms obtain x h0 where
    0: "getitem (to ed) ''to'' h = (Inr x, h0)"
    and r0: "and_then (fill_addresses w to_selectors ''To field'' (as_list x)) (\<lambda>_.
              and_then (fill_optional w cc_selectors ''Cc field'' (cc ed)) (\<lambda>_.
              fill_optional w bcc_selectors ''Bcc field'' (bcc ed))) h0 = (Inr u, h')"
    unfolding fill_recipients_def by (auto dest: and_then_InrE)
  from 0 have x: "to ed = Some x" "h0 = h"
    by (auto simp add: getitem_def ret_def raise_def split: option.splits)
  from r0 obtain u1 h1 where
    1: "fill_addresses w to_selectors ''To field'' (as_list x) h0 = (Inr u1, h1)"
    and r1: "and_then (fill_optional w cc_selectors ''Cc field'' (cc ed)) (\<lambda>_.
              fill_optional w bcc_selectors ''Bcc field'' (bcc ed)) h1 = (Inr u, h')"
    by (auto dest: and_then_InrE)
  from r1 obtain u2 h2 where
    2: "fill_optional w cc_selectors ''Cc field'' (cc ed) h1 = (Inr u2, h2)"
    and 3: "fill_optional w bcc_selectors ''Bcc field'' (bcc ed) h2 = (Inr u, h')"
    by (auto dest: and_then_InrE)
  from fill_addresses_blocks [OF t(2), of w "''To field''" "as_list x" h0 u1 h1] 1 t(1)
  obtain b1 where b1: "h1 = h0 @ concat b1"
    "list_all2 (recipient_block to_selectors) (as_list x) b1" by auto
  from fill_optional_blocks [OF c(2), of w "''Cc field''" "cc ed" h1 u2 h2] 2 c(1)
  obtain b2 where b2: "h2 = h1 @ concat b2"
    "list_all2 (recipient_block cc_selectors)
       (case cc ed of None \<Rightarrow> [] | Some r \<Rightarrow> if truthy (cc ed) then as_list r else []) b2" by auto
  from fill_optional_blocks [OF b(2), of w "''Bcc field''" "bcc ed" h2 u h'] 3 b(1)
  obtain b3 where b3: "h' = h2 @ concat b3"
    "list_all2 (recipient_block bcc_selectors)
       (case bcc ed of None \<Rightarrow> [] | Some r \<Rightarrow> if truthy (bcc ed) then as_list r else []) b3" by auto
  have "list_all2 (\<lambda>(sels, a) b. recipient_block sels a b) (recipient_plan ed) (b1 @ b2 @ b3)"
    unfolding recipient_plan_def using b1(2) b2(2) b3(2) x(1)
    by (intro list_all2_appendI) (simp_all add: list_all2_map1)
  with b1(1) b2(1) b3(1) x(2) show ?thesis
    by (intro exI [of _ "b1 @ b2 @ b3"]) simp
qed

lemma locate_not_entry: "is_locate e \<Longrightarrow> \<not> is_entry e"
  by (erule is_locate.elims) simp_all

lemma locate_not_press: "is_locate e \<Longrightarrow> \<not> is_press e"
  by (erule is_locate.elims) simp_all

lemma after_recipients_no_press:
  "emits (\<lambda>e. \<not> is_press e)
     (and_then (fill_subject w ed) (\<lambda>_. and_then (fill_body w ed) (\<lambda>_.
      and_then (click_send w) (\<lambda>_. ret True))))"
  by (intro emits_and_then emits_ret fill_subject_emits fill_body_emits click_send_emits)
     (simp_all add: locate_not_press)

subsection \<open>The attempts after a failed one\<close>

text \<open>The loop from attempt \<open>a\<close> on, when the next \<open>k + 1\<close> attempts fail and none of them is the last.\<close>

lemma send_loop_after_failures:
  "a + k < n - 1 \<Longrightarrow>
   (\<forall>j\<le>k. isl (fst (send_attempt w ed (send_start w ed h j)))) \<Longrightarrow>
   send_loop w ed (int n) (map int [a..<n]) h =
     send_loop w ed (int n) (map int [Suc (a + k)..<n]) (send_start w ed h (Suc k))"
proof (induction k arbitrary: a h)
  case 0
  from 0(1) have u: "[a..<n] = a # [Suc a..<n]" by (simp add: upt_conv_Cons)
  from 0(2) obtain e h1 where f: "send_attempt w ed h = (Inl e, h1)"
    by (cases "send_attempt w ed h") (auto simp add: isl_def)
  have na: "int a \<noteq> int n - 1" using 0(1) by simp
  from f na u show ?case by (simp add: and_then_def sleep_def)
next
  case (Suc k)
  from Suc.prems(1) have u: "[a..<n] = a # [Suc a..<n]" by (simp add: upt_conv_Cons)
  from Suc.prems(2) have "isl (fst (send_attempt w ed h))" by (auto dest: spec [of _ 0])
  then obtain e h1 where f: "send_attempt w ed h = (Inl e, h1)"
    by (cases "send_attempt w ed h") (auto simp add: isl_def)
  have na: "int a \<noteq> int n - 1" using Suc.prems(1) by simp
  have p1: "Suc a + k < n - 1" using Suc.prems(1) by simp
  have p2: "\<forall>j\<le>k. isl (fst (send_attempt w ed (send_start w ed (h1 @ [Sleep 2]) j)))"
  proof (intro allI impI)
    fix j assume "j \<le> k"
    then have "isl (fst (send_attempt w ed (send_start w ed h (Suc j))))"
      using Suc.prems(2) by (simp del: send_start.simps)
    then show "isl (fst (send_attempt w ed (send_start w ed (h1 @ [Sleep 2]) j)))"
      using f by (simp only: send_start_shift) simp
  qed
  have s: "send_start w ed h (Suc (Suc k)) = send_start w ed (h1 @ [Sleep 2]) (Suc k)"
    using f by (simp only: send_start_shift [of w ed h "Suc k"]) simp
  from Suc.IH [OF p1 p2] have
    "send_loop w ed (int n) (map int [Suc a..<n]) (h1 @ [Sleep 2]) =
       send_loop w ed (int n) (map int [Suc (Suc a + k)..<n])
         (send_start w ed (h1 @ [Sleep 2]) (Suc k))" .
  with f na u s show ?case by (simp add: and_then_def sleep_def del: send_start.simps)
qed

lemma send_loop_Cons_extends:
  "\<exists>evs. snd (send_loop w ed n (b # rest) g) = snd (send_attempt w ed g) @ evs"
proof -
  obtain r h2 where f: "send_attempt w ed g = (r, h2)" by (cases "send_attempt w ed g")
  show ?thesis
  proof (cases r)
    case (Inr x)
    with f show ?thesis by simp
  next
    case (Inl e)
    show ?thesis
    proof (cases "b = n - 1")
      case True
      obtain r' h3 where s: "save_screenshot w (''send_error_attempt_'' @ str_int (b + 1)) h2
          = (Inr r', h3)" using save_screenshot_total by blast
      from save_screenshot_no_send_click [of w "''send_error_attempt_'' @ str_int (b + 1)" h2] s
      obtain e2 where "h3 = h2 @ e2" by auto
      with f Inl True s show ?thesis by simp
    next
      case False
      from send_loop_extends [of w ed n rest "h2 @ [Sleep 2]"] obtain e2 where
        "snd (send_loop w ed n rest (h2 @ [Sleep 2])) = (h2 @ [Sleep 2]) @ e2" by blast
      with f Inl False show ?thesis by (simp add: and_then_def sleep_def)
    qed
  qed
qed

text \<open>
  After \<open>k + 1\<close> failed attempts, with \<open>k + 1 < 3\<close>, \<open>send_email\<close> makes the next attempt,
  and whatever that attempt does is in the history of the call.
\<close>

lemma send_email_after_failures:
  assumes "to ed \<noteq> None" and "subject ed \<noteq> None" and "k < 2"
    and "\<forall>j\<le>k. isl (fst (send_attempt w ed (send_start w ed h j)))"
  shows "\<exists>evs. snd (send_email w ed h)
           = snd (send_attempt w ed (send_start w ed h (Suc k))) @ evs"
proof -
  have 1: "send_email w ed h = send_loop w ed (int 3) (map int [0..<3]) h"
    using assms(1,2) by (auto simp add: send_email_def range_def getitem_def and_then_def ret_def)
  have "0 + k < 3 - (1::nat)" using assms(3) by simp
  from send_loop_after_failures [OF this assms(4)]
  have 2: "send_loop w ed (int 3) (map int [0..<3]) h =
      send_loop w ed (int 3) (map int [Suc k..<3]) (send_start w ed h (Suc k))" by simp
  have 3: "[Suc k..<3] = Suc k # [Suc (Suc k)..<3]" using assms(3) by (simp add: upt_conv_Cons)
  from send_loop_Cons_extends [of w ed "int 3" "int (Suc k)" "map int [Suc (Suc k)..<3]"
      "send_start w ed h (Suc k)"]
  show ?thesis unfolding 1 2 3 by (simp del: send_start.simps)
qed

lemma later_stages_extend:
  "emits (\<lambda>e. True)
     (and_then (fill_recipients w ed) (\<lambda>_. and_then (fill_subject w ed) (\<lambda>_.
      and_then (fill_body w ed) (\<lambda>_. and_then (click_send w) (\<lambda>_. ret True)))))"
  by (intro emits_and_then emits_ret fill_recipients_emits fill_subject_emits fill_body_emits
      click_send_emits; simp)

lemma send_attempt_compose_click:
  assumes "wait_for_element w (One compose_sel) 10000 ''compose button'' g = (Inr btn, g1)"
  shows "\<exists>evs. snd (send_attempt w ed g) = g1 @ Click btn # evs"
proof -
  let ?k = "and_then (call w (Click btn)) (\<lambda>_.
              and_then (wait_for_element w (One dialog_sel) 10000 ''compose dialog'') (\<lambda>_.
              and_then (sleep 1) (\<lambda>_.
              and_then (fill_recipients w ed) (\<lambda>_. and_then (fill_subject w ed) (\<lambda>_.
              and_then (fill_body w ed) (\<lambda>_. and_then (click_send w) (\<lambda>_. ret True)))))))"
  have 1: "send_attempt w ed g = ?k g1"
    using assms by (simp add: send_attempt_def open_compose_def and_then_assoc and_then_Inr)
  have "emits (\<lambda>e. True)
          (and_then (wait_for_element w (One dialog_sel) 10000 ''compose dialog'') (\<lambda>_.
           and_then (sleep 1) (\<lambda>_.
           and_then (fill_recipients w ed) (\<lambda>_. and_then (fill_subject w ed) (\<lambda>_.
           and_then (fill_body w ed) (\<lambda>_. and_then (click_send w) (\<lambda>_. ret True)))))))"
    by (intro emits_and_then emits_sleep later_stages_extend
        emits_mono [OF wait_for_element_emits]; simp)
  then have "\<exists>evs. snd (?k g1) = g1 @ Click btn # evs"
    by (intro and_then_opening) (simp_all add: call_def split: option.splits)
  with 1 show ?thesis by simp
qed

lemma send_attempt_send_click:
  assumes "until_send w ed g = (Inr send_btn, g1)"
  shows "\<exists>evs. snd (send_attempt w ed g) = g1 @ Click send_btn # evs"
proof -
  let ?k = "and_then (call w (Click send_btn)) (\<lambda>_.
              and_then (call w (WaitForSelector sent_marker 10000)) (\<lambda>_. ret True))"
  have 1: "send_attempt w ed g = ?k g1"
    using assms by (simp add: send_attempt_until_send and_then_Inr)
  have "emits (\<lambda>e. True) (and_then (call w (WaitForSelector sent_marker 10000)) (\<lambda>_. ret True))"
    by (intro emits_and_then emits_call emits_ret) simp
  then have "\<exists>evs. snd (?k g1) = g1 @ Click send_btn # evs"
    by (intro and_then_opening) (simp_all add: call_def split: option.splits)
  with 1 show ?thesis by simp
qed


lemma send_attempt_page_dies_first:
  "send_attempt page_dies draft0 [] =
     (Inl (TimeoutError ''Timeout 10000ms exceeded.''),
      [WaitVisible (Loc compose_sel) 10000, Click (Loc compose_sel),
       WaitVisible (Loc dialog_sel) 10000, Sleep 1,
       WaitVisible (Loc (to_selectors ! 0)) 1666, Click (Loc (to_selectors ! 0)),
       Fill (Loc (to_selectors ! 0)) ''a@x'', Press ''Enter'',
       WaitVisible (Loc (subject_selectors ! 0)) 2500, Click (Loc (subject_selectors ! 0)),
       Clear (Loc (subject_selectors ! 0)), Fill (Loc (subject_selectors ! 0)) ''Hello'',
       WaitVisible (Loc (body_selectors ! 0)) 1666, Click (Loc (body_selectors ! 0)),
       Fill (Loc (body_selectors ! 0)) ''Text'',
       WaitVisible (Loc (send_selectors ! 0)) 1250, Click (Loc (send_selectors ! 0)),
       WaitForSelector sent_marker 10000])"
proof -
  have d: "(5000::nat) div Suc (Suc 0) = 2500"
    by (simp add: numeral_2_eq_2 [symmetric])
  show ?thesis
    by (simp add: pipeline_simps page_dies_def call_def count_def and_then_def ret_def
        sleep_def wait_for_element_def selectors_of_def getitem_def draft0_def d sent_marker_def)
qed

lemma send_attempt_page_dies_later:
  "WaitForSelector sent_marker 10000 \<in> set h \<Longrightarrow>
   send_attempt page_dies draft0 h =
     (Inl (Error ''page closed''),
      h @ [WaitVisible (Loc compose_sel) 10000, Count (Loc dialog_sel)])"
  by (simp add: send_attempt_def open_compose_def wait_for_element_def selectors_of_def
      call_def page_dies_def and_then_def dialog_fallback_def count_def)

lemma save_screenshot_page_dies:
  "WaitForSelector sent_marker 10000 \<in> set h \<Longrightarrow>
   save_screenshot page_dies label h = (Inr None, h @ [Makedirs ''screens''])"
  by (simp add: save_screenshot_def and_then_def call_def page_dies_def)

lemma until_send_no_marker:
  "until_send page_no_marker draft0 h =
     (Inr (Loc (send_selectors ! 0)),
      h @ [WaitVisible (Loc compose_sel) 10000, Click (Loc compose_sel),
           WaitVisible (Loc dialog_sel) 10000, Sleep 1,
           WaitVisible (Loc (to_selectors ! 0)) 1666, Click (Loc (to_selectors ! 0)),
           Fill (Loc (to_selectors ! 0)) ''a@x'', Press ''Enter'',
           WaitVisible (Loc (subject_selectors ! 0)) 2500, Click (Loc (subject_selectors ! 0)),
           Clear (Loc (subject_selectors ! 0)), Fill (Loc (subject_selectors ! 0)) ''Hello'',
           WaitVisible (Loc (body_selectors ! 0)) 1666, Click (Loc (body_selectors ! 0)),
           Fill (Loc (body_selectors ! 0)) ''Text'',
           WaitVisible (Loc (send_selectors ! 0)) 1250])"
proof -
  have d: "(5000::nat) div Suc (Suc 0) = 2500"
    by (simp add: numeral_2_eq_2 [symmetric])
  show ?thesis
    by (simp add: until_send_def pipeline_simps page_no_marker_def call_def count_def
        and_then_def ret_def sleep_def wait_for_element_def selectors_of_def getitem_def
        draft0_def d sent_marker_def)
qed

section \<open>Claims\<close>

subsection \<open>The facade\<close>

text \<open>
  C1, as stated, fails: a request without recipients, whose translator finds none either,
  is answered with status 500. The \<open>ValueError\<close> of the validation step is not an
  \<open>HTTPException\<close>, so the last handler of \<open>gmail_send\<close> (``any earlier error (LLM parse,
  validation, etc.)'') turns it into a 500.
\<close>

theorem gmail_send_empty_to_is_500:
  "\<not> truthy (to (merge_recipients request0 no_recipient)) \<and>
   gmail_send app0 imp0 page_ok request0 []
     = (Inl (HTTPException 500 ''Gmail send failed: No recipient found after parsing/merge.''), [])"
  by (simp add: gmail_send_def gmail_send_body_def app0_def imp0_def request0_def no_recipient_def
      merge_recipients_def given_def truthy_def and_then_def lift_def raise_def str_exn_def)

text \<open>
  C1, amended: when the service is available and the merged draft, as validation returns
  it, has no recipient, \<open>POST /gmail/send\<close> fails with status 500 and the detail
  \<open>Gmail send failed: No recipient found after parsing/merge.\<close>
\<close>

theorem gmail_send_no_recipient_500:
  assumes "gmail_agent a = Some parse_task" and "gmail_env a \<noteq> None"
    and "parse_task (task request) (tone request) = Inr instructions"
    and "parse_email_json imp (merge_recipients request instructions) = Inr email_data"
    and "\<not> truthy (to email_data)"
  shows "gmail_send a imp w request h
     = (Inl (HTTPException 500 ''Gmail send failed: No recipient found after parsing/merge.''), h)"
  using assms
  by (simp add: gmail_send_def gmail_send_body_def and_then_def lift_def raise_def str_exn_def)

theorem gmail_send_no_recipient_500_witness:
  "gmail_send app0 imp0 page_dead request0 [Sleep 1]
     = (Inl (HTTPException 500 ''Gmail send failed: No recipient found after parsing/merge.''),
        [Sleep 1])"
  using gmail_send_no_recipient_500 [of app0 "\<lambda>t tn. Inr no_recipient" request0 no_recipient imp0
      no_recipient page_dead "[Sleep 1]"]
  by (simp add: app0_def imp0_def request0_def no_recipient_def merge_recipients_def given_def
      truthy_def)

text \<open>
  C2 at its failing input: for an empty question the handler of \<open>POST /api/search\<close> raises
  \<open>HTTPException(400)\<close> inside its own \<open>try\<close>, whose \<open>except Exception\<close> catches it and
  answers 500, whatever the backend does.
\<close>

theorem search_documents_empty_question:
  "\<exists>detail. search_documents b \<lparr>question = [], max_results = n\<rparr>
             = Inl (HTTPException 500 detail)"
  by (simp add: search_documents_def search_body_def)

text \<open>
  C4: the draft handed to validation has the caller's \<open>to\<close>, \<open>cc\<close> and \<open>bcc\<close> where the
  request gives a non-empty list, and the translator's otherwise; and a successful reply
  previews what validation returned for that merged draft.
\<close>

theorem gmail_send_merge_precedence:
  "to (merge_recipients request instructions)
     = (case req_to request of Some (x # xs) \<Rightarrow> Some (Lst (x # xs)) | _ \<Rightarrow> to instructions)
   \<and> cc (merge_recipients request instructions)
     = (case req_cc request of Some (x # xs) \<Rightarrow> Some (Lst (x # xs)) | _ \<Rightarrow> cc instructions)
   \<and> bcc (merge_recipients request instructions)
     = (case req_bcc request of Some (x # xs) \<Rightarrow> Some (Lst (x # xs)) | _ \<Rightarrow> bcc instructions)
   \<and> (gmail_send a imp w request h = (Inr reply, h') \<longrightarrow>
        (\<exists>parse_task translated. gmail_agent a = Some parse_task \<and>
           parse_task (task request) (tone request) = Inr translated \<and>
           parse_email_json imp (merge_recipients request translated) = Inr (email_preview reply)))"
proof -
  have m: "to (merge_recipients request instructions)
     = (case req_to request of Some (x # xs) \<Rightarrow> Some (Lst (x # xs)) | _ \<Rightarrow> to instructions)"
    "cc (merge_recipients request instructions)
     = (case req_cc request of Some (x # xs) \<Rightarrow> Some (Lst (x # xs)) | _ \<Rightarrow> cc instructions)"
    "bcc (merge_recipients request instructions)
     = (case req_bcc request of Some (x # xs) \<Rightarrow> Some (Lst (x # xs)) | _ \<Rightarrow> bcc instructions)"
    by (simp_all add: merge_recipients_def given_def Let_def split: option.splits list.splits)
  have e: "gmail_send a imp w request h = (Inr reply, h') \<longrightarrow>
        (\<exists>parse_task translated. gmail_agent a = Some parse_task \<and>
           parse_task (task request) (tone request) = Inr translated \<and>
           parse_email_json imp (merge_recipients request translated) = Inr (email_preview reply))"
    by (auto simp add: gmail_send_def gmail_send_body_def and_then_def lift_def raise_def ret_def
        split: option.splits if_splits sum.splits prod.splits exn.splits)
  from m e show ?thesis by blast
qed

text \<open>
  The example of the spec: the translator answers \<open>to = [a@x]\<close>, \<open>cc = []\<close>, the request
  overrides \<open>to\<close> with \<open>[b@x]\<close>, and the draft that is sent and previewed has \<open>to = [b@x]\<close>.
\<close>

theorem gmail_send_merge_precedence_witness:
  "to (merge_recipients request1 draft0) = Some (Lst [''b@x''])
   \<and> cc (merge_recipients request1 draft0) = Some (Lst [])
   \<and> bcc (merge_recipients request1 draft0) = None
   \<and> fst (gmail_send app1 imp0 page_ok request1 []) =
       Inr \<lparr>success = True, message = sent_message,
            email_preview = draft0\<lparr>to := Some (Lst [''b@x''])\<rparr>\<rparr>
   \<and> parse_email_json imp0 (merge_recipients request1 draft0)
       = Inr (draft0\<lparr>to := Some (Lst [''b@x''])\<rparr>)"
proof -
  have r: "gmail_send app1 imp0 page_ok request1 [] =
      (Inr \<lparr>success = True, message = sent_message,
            email_preview = draft0\<lparr>to := Some (Lst [''b@x''])\<rparr>\<rparr>,
       snd (gmail_send app1 imp0 page_ok request1 []))"
    using gmail_send_page_ok by (simp add: prod_eq_iff)
  from gmail_send_merge_precedence [of request1 draft0 app1 imp0 page_ok "[]"
      "\<lparr>success = True, message = sent_message,
        email_preview = draft0\<lparr>to := Some (Lst [''b@x''])\<rparr>\<rparr>"
      "snd (gmail_send app1 imp0 page_ok request1 [])"] r gmail_send_page_ok
  show ?thesis by (simp add: request1_def draft0_def app1_def)
qed

text \<open>
  C5: when the merged draft, as validation returns it, has no recipient, \<open>gmail_send\<close>
  raises and the history is what it was: nothing was launched, opened, filled or clicked.
  This holds for every pipeline that the facade may import.
\<close>

theorem gmail_send_rejects_before_pipeline:
  assumes "gmail_agent a = Some parse_task" and "gmail_env a \<noteq> None"
    and "parse_task (task request) (tone request) = Inr instructions"
    and "parse_email_json imp (merge_recipients request instructions) = Inr email_data"
    and "\<not> truthy (to email_data)"
  shows "\<exists>e. gmail_send a imp w request h = (Inl e, h)"
  using assms
  by (simp add: gmail_send_def gmail_send_body_def and_then_def lift_def raise_def str_exn_def)

text \<open>On the same page a request with a recipient does start the browser.\<close>

theorem gmail_send_rejects_before_pipeline_witness:
  "(\<exists>e. gmail_send app0 imp0 page_ok request0 [] = (Inl e, []))
   \<and> hd (snd (gmail_send app1 imp0 page_ok request1 [])) = StartPlaywright"
  using gmail_send_rejects_before_pipeline [of app0 "\<lambda>t tn. Inr no_recipient" request0
      no_recipient imp0 no_recipient page_ok "[]"] gmail_send_page_ok_starts
  by (simp add: app0_def imp0_def request0_def no_recipient_def merge_recipients_def given_def
      truthy_def)

subsection \<open>The diagnostic snapshot\<close>

text \<open>
  C10: \<open>save_screenshot\<close> always returns: the path when both the directory and the capture
  succeed, \<open>None\<close> when either raises. Hence on the last attempt of \<open>send_email\<close> (the one
  with \<open>attempt = max_retries - 1\<close>) the error of the attempt is the one that is raised,
  whatever happens to the snapshot.
\<close>

theorem save_screenshot_never_raises:
  "(\<exists>r h'. save_screenshot w label h = (Inr r, h') \<and>
      (r = None \<or>
       r = Some (''screens/'' @ now w (h @ [Makedirs ''screens'']) @ ''_'' @ label @ ''.png'')) \<and>
      (r = None \<longleftrightarrow>
         raises w h (Makedirs ''screens'') \<noteq> None \<or>
         raises w (h @ [Makedirs ''screens''])
           (Screenshot (''screens/'' @ now w (h @ [Makedirs ''screens'']) @ ''_'' @ label
              @ ''.png''))
           \<noteq> None))
   \<and> (send_attempt w ed g = (Inl e, g1) \<longrightarrow>
        fst (send_loop w ed m ((m - 1) # rest) g) = Inl e)"
proof -
  have a: "\<exists>r h'. save_screenshot w label h = (Inr r, h') \<and>
      (r = None \<or>
       r = Some (''screens/'' @ now w (h @ [Makedirs ''screens'']) @ ''_'' @ label @ ''.png'')) \<and>
      (r = None \<longleftrightarrow>
         raises w h (Makedirs ''screens'') \<noteq> None \<or>
         raises w (h @ [Makedirs ''screens''])
           (Screenshot (''screens/'' @ now w (h @ [Makedirs ''screens'']) @ ''_'' @ label
              @ ''.png''))
           \<noteq> None)"
    by (cases "raises w h (Makedirs ''screens'')";
        cases "raises w (h @ [Makedirs ''screens''])
           (Screenshot (''screens/'' @ now w (h @ [Makedirs ''screens'']) @ ''_'' @ label
              @ ''.png''))")
       (simp_all add: save_screenshot_def and_then_def call_def ret_def Let_def)
  have b: "send_attempt w ed g = (Inl e, g1) \<longrightarrow>
        fst (send_loop w ed m ((m - 1) # rest) g) = Inl e"
  proof
    assume f: "send_attempt w ed g = (Inl e, g1)"
    obtain r h' where
      s: "save_screenshot w (''send_error_attempt_'' @ str_int (m - 1 + 1)) g1 = (Inr r, h')"
      using save_screenshot_total by blast
    show "fst (send_loop w ed m ((m - 1) # rest) g) = Inl e"
      using f s by simp
  qed
  from a b show ?thesis by blast
qed

theorem save_screenshot_never_raises_witness:
  "send_attempt page_dead draft0 [] =
     (Inl (Error ''page closed''), [WaitVisible (Loc compose_sel) 10000, Count (Loc dialog_sel)])
   \<and> fst (send_loop page_dead draft0 3 [2] []) = Inl (Error ''page closed'')
   \<and> save_screenshot page_dead ''x'' [] = (Inr None, [Makedirs ''screens''])"
proof -
  have f: "send_attempt page_dead draft0 [] =
     (Inl (Error ''page closed''), [WaitVisible (Loc compose_sel) 10000, Count (Loc dialog_sel)])"
    by (simp add: send_attempt_def open_compose_def wait_for_element_def selectors_of_def
        call_def page_dead_def and_then_def dialog_fallback_def count_def)
  have s: "save_screenshot page_dead ''x'' [] = (Inr None, [Makedirs ''screens''])"
    by (simp add: save_screenshot_def and_then_def call_def page_dead_def)
  from save_screenshot_never_raises [of page_dead "''x''" "[]" draft0 "[]" "Error ''page closed''"
      "[WaitVisible (Loc compose_sel) 10000, Count (Loc dialog_sel)]" 3 "[]"] f s
  show ?thesis by simp
qed

subsection \<open>The field locator\<close>

text \<open>
  C8: \<open>wait_for_element\<close> waits on the candidates in list order, each with the budget
  \<open>timeout // len(selectors)\<close>, and returns the first one that becomes visible, having
  waited on nothing after it. It raises exactly when no candidate becomes visible and the
  dialog fallback finds no element either.
\<close>

theorem wait_for_element_order:
  "(\<forall>i<length (selectors_of selector).
      (\<forall>j<i. \<not> resolves w h timeout (selectors_of selector) j) \<and>
      resolves w h timeout (selectors_of selector) i \<longrightarrow>
      wait_for_element w selector timeout description h =
        (Inr (Loc (selectors_of selector ! i)), h @ tried timeout (selectors_of selector) (Suc i)))
   \<and> (isl (fst (wait_for_element w selector timeout description h)) \<longleftrightarrow>
        (\<forall>j<length (selectors_of selector). \<not> resolves w h timeout (selectors_of selector) j) \<and>
        \<not> fallback_finds w
            (h @ tried timeout (selectors_of selector) (length (selectors_of selector))))"
proof -
  let ?sels = "selectors_of selector"
  have a: "\<forall>i<length ?sels.
      (\<forall>j<i. \<not> resolves w h timeout ?sels j) \<and> resolves w h timeout ?sels i \<longrightarrow>
      wait_for_element w selector timeout description h =
        (Inr (Loc (?sels ! i)), h @ tried timeout ?sels (Suc i))"
  proof (intro allI impI)
    fix i assume i: "i < length ?sels"
      and r: "(\<forall>j<i. \<not> resolves w h timeout ?sels j) \<and> resolves w h timeout ?sels i"
    from r have "try_selectors w ?sels timeout ?sels h =
       (Some (Loc (?sels ! i)),
        h @ map (\<lambda>s. WaitVisible (Loc s) (timeout div length ?sels)) (take (Suc i) ?sels))"
      by (intro try_selectors_first [OF i]) (simp_all add: resolves_def tried_def candidate_wait_fun)
    then show "wait_for_element w selector timeout description h =
        (Inr (Loc (?sels ! i)), h @ tried timeout ?sels (Suc i))"
      by (simp add: wait_for_element_def tried_def candidate_wait_fun)
  qed
  have n: "fst (try_selectors w ?sels timeout ?sels h) = None \<longleftrightarrow>
        (\<forall>j<length ?sels. \<not> resolves w h timeout ?sels j)"
    by (simp add: try_selectors_none resolves_def tried_def candidate_wait_fun)
  have b: "isl (fst (wait_for_element w selector timeout description h)) \<longleftrightarrow>
        (\<forall>j<length ?sels. \<not> resolves w h timeout ?sels j) \<and>
        \<not> fallback_finds w (h @ tried timeout ?sels (length ?sels))"
  proof (cases "fst (try_selectors w ?sels timeout ?sels h)")
    case None
    from try_selectors_none_history [OF None]
    have "try_selectors w ?sels timeout ?sels h = (None, h @ tried timeout ?sels (length ?sels))"
      using None by (simp add: prod_eq_iff tried_def candidate_wait_fun)
    then have "wait_for_element w selector timeout description h
        = dialog_fallback w description (h @ tried timeout ?sels (length ?sels))"
      by (simp add: wait_for_element_def)
    with None n show ?thesis by (simp add: dialog_fallback_raises)
  next
    case (Some l)
    then have "\<not> isl (fst (wait_for_element w selector timeout description h))"
      by (cases "try_selectors w ?sels timeout ?sels h") (simp add: wait_for_element_def)
    with Some n show ?thesis by simp
  qed
  from a b show ?thesis by blast
qed

theorem wait_for_element_order_witness:
  "wait_for_element page_second (Many [''a'', ''b'', ''c'']) 5000 ''field'' []
     = (Inr (Loc ''b''), [WaitVisible (Loc ''a'') 1666, WaitVisible (Loc ''b'') 1666])
   \<and> isl (fst (wait_for_element page_dead (Many [''a'', ''b'', ''c'']) 5000 ''field'' []))"
proof -
  have 1: "\<forall>j<1. \<not> resolves page_second [] 5000 [''a'', ''b'', ''c''] j"
    "resolves page_second [] 5000 [''a'', ''b'', ''c''] 1"
    by (simp_all add: resolves_def page_second_def tried_def candidate_wait_def)
  have 2: "\<forall>j<length [''a'', ''b'', ''c'']. \<not> resolves page_dead [] 5000 [''a'', ''b'', ''c''] j"
    by (simp add: resolves_def page_dead_def)
  have 3: "\<not> fallback_finds page_dead ([] @ tried 5000 [''a'', ''b'', ''c''] (length [''a'', ''b'', ''c'']))"
    by (simp add: fallback_finds_def page_dead_def)
  have a: "wait_for_element page_second (Many [''a'', ''b'', ''c'']) 5000 ''field'' []
     = (Inr (Loc ''b''), [WaitVisible (Loc ''a'') 1666, WaitVisible (Loc ''b'') 1666])"
    using wait_for_element_order [of "Many [''a'', ''b'', ''c'']" page_second "[]" 5000 "''field''",
        THEN conjunct1, rule_format, of 1] 1
    by (simp add: selectors_of_def tried_def candidate_wait_def)
  have b: "isl (fst (wait_for_element page_dead (Many [''a'', ''b'', ''c'']) 5000 ''field'' []))"
    using wait_for_element_order [of "Many [''a'', ''b'', ''c'']" page_dead "[]" 5000 "''field''",
        THEN conjunct2] 2 3
    by (simp add: selectors_of_def)
  from a b show ?thesis by simp
qed

subsection \<open>The retry executor\<close>

text \<open>
  C7: when the first \<open>k\<close> attempts of \<open>fill_field_with_retry\<close> fail and the next one
  returns, with \<open>k < max_retries\<close>, the call returns \<open>True\<close> with the history of that
  attempt, which holds exactly \<open>k + 1\<close> attempts: nothing is attempted after the success.
\<close>

theorem fill_field_with_retry_attempts:
  assumes "int k < max_retries"
    and "\<forall>j<k. isl (fst (fill_once w field_type val (fill_start w field_type val h j)))"
    and "fill_once w field_type val (fill_start w field_type val h k) = (Inr r, h')"
  shows "fill_field_with_retry w field_type val max_retries h = (Inr True, h')
         \<and> attempts_made field_type (drop (length h) h') = k + 1"
proof -
  have n: "int (nat max_retries) = max_retries" "0 + k < nat max_retries"
    using assms(1) by simp_all
  from fill_loop_succeeds [OF n(2) assms(2,3)] n(1)
  have a: "fill_field_with_retry w field_type val max_retries h = (Inr True, h')"
    by (simp add: fill_field_with_retry_def range_def)
  have v: "field_selectors field_type \<noteq> []" by (rule fill_once_valid_field [OF assms(3)])
  from fill_start_attempts [OF v, of w val h k] obtain e1 where
    e1: "fill_start w field_type val h k = h @ e1" "attempts_made field_type e1 = k" by blast
  from fill_once_one_attempt [OF v, of w val "h @ e1"] obtain e2 where
    e2: "snd (fill_once w field_type val (h @ e1)) = (h @ e1) @ e2"
    "attempts_made field_type e2 = 1" by blast
  from assms(3) e1 e2 have "h' = h @ e1 @ e2" by simp
  with e1 e2 have "attempts_made field_type (drop (length h) h') = k + 1"
    by (simp add: attempts_made_append)
  with a show ?thesis by simp
qed

theorem fill_field_with_retry_attempts_witness:
  "fill_field_with_retry page_slow ''subject'' ''Hello'' 3 [] =
     (Inr True,
      [WaitVisible subject_box 2500, Click subject_box, Sleep 1,
       WaitVisible subject_box 2500, Click subject_box, Sleep 1,
       WaitVisible subject_box 2500, Click subject_box, Clear subject_box,
       Fill subject_box ''Hello''])
   \<and> attempts_made ''subject''
       [WaitVisible subject_box 2500, Click subject_box, Sleep 1,
        WaitVisible subject_box 2500, Click subject_box, Sleep 1,
        WaitVisible subject_box 2500, Click subject_box, Clear subject_box,
        Fill subject_box ''Hello''] = 3"
proof -
  have d: "(5000::nat) div Suc (Suc 0) = 2500"
    by (simp add: numeral_2_eq_2 [symmetric])
  have f: "\<forall>j<Suc (Suc 0).
      isl (fst (fill_once page_slow ''subject'' ''Hello''
                  (fill_start page_slow ''subject'' ''Hello'' [] j)))"
    by (simp add: less_Suc_eq fill_once_def locate_field_def wait_for_element_def selectors_of_def
        subject_selectors_def call_def and_then_def page_slow_def)
  have s: "fill_once page_slow ''subject'' ''Hello''
             (fill_start page_slow ''subject'' ''Hello'' [] (Suc (Suc 0))) =
     (Inr True,
      [WaitVisible subject_box 2500, Click subject_box, Sleep 1,
       WaitVisible subject_box 2500, Click subject_box, Sleep 1,
       WaitVisible subject_box 2500, Click subject_box, Clear subject_box,
       Fill subject_box ''Hello''])"
    by (simp add: fill_once_def locate_field_def wait_for_element_def selectors_of_def
        subject_selectors_def call_def and_then_def page_slow_def subject_box_def ret_def d)
  from fill_field_with_retry_attempts [of "Suc (Suc 0)" 3 page_slow "''subject''" "''Hello''" "[]",
      OF _ f s]
  show ?thesis by simp
qed

text \<open>
  C6: when all three attempts of \<open>send_email\<close> fail, the error of the third attempt is the
  one raised, and \<open>save_screenshot\<close> was called exactly once, after the third attempt, with
  the label \<open>send_error_attempt_3\<close>. When all \<open>max_retries\<close> attempts of
  \<open>fill_field_with_retry\<close> fail, the error of the last attempt is the one raised, and no
  snapshot is taken: the snapshot belongs to the send action.
\<close>

theorem retry_exhaustion:
  "(to ed \<noteq> None \<and> subject ed \<noteq> None \<and>
    (\<forall>k<3. isl (fst (send_attempt w ed (send_start w ed h k)))) \<longrightarrow>
      (\<exists>e h3 h4. send_attempt w ed (send_start w ed h 2) = (Inl e, h3) \<and>
                 send_email w ed h = (Inl e, h4) \<and>
                 h4 = snd (save_screenshot w ''send_error_attempt_3'' h3) \<and>
                 snapshots_taken (drop (length h) h3) = 0 \<and>
                 snapshots_taken (drop (length h) h4) = 1))
   \<and> (0 < max_retries \<and>
      (\<forall>k<nat max_retries. isl (fst (fill_once w ft v (fill_start w ft v g k)))) \<longrightarrow>
      (\<exists>e g'. fill_once w ft v (fill_start w ft v g (nat max_retries - 1)) = (Inl e, g') \<and>
              fill_field_with_retry w ft v max_retries g = (Inl e, g') \<and>
              snapshots_taken (drop (length g) g') = 0))"
proof (intro conjI impI)
  assume a: "to ed \<noteq> None \<and> subject ed \<noteq> None \<and>
    (\<forall>k<3. isl (fst (send_attempt w ed (send_start w ed h k))))"
  then have f: "\<forall>j\<le>2. isl (fst (send_attempt w ed (send_start w ed h j)))" by simp
  have "(0::nat) + 2 = 3 - 1" "(0::nat) < 3" by simp_all
  from send_loop_exhausted [OF this f] obtain e h3 where
    r: "send_attempt w ed (send_start w ed h 2) = (Inl e, h3)"
       "send_loop w ed (int 3) (map int [0..<3]) h =
          (Inl e, snd (save_screenshot w (''send_error_attempt_'' @ str_int (int 3)) h3))"
    by blast
  from a r(2) have s: "send_email w ed h =
      (Inl e, snd (save_screenshot w ''send_error_attempt_3'' h3))"
    by (auto simp add: send_email_def getitem_def and_then_def ret_def range_def str_int_3)
  from send_start_emits [OF send_attempt_no_snapshot, of w ed h 2] obtain e1 where
    e1: "send_start w ed h 2 = h @ e1" "list_all (\<lambda>e. e \<noteq> Makedirs ''screens'') e1" by auto
  from emitsD [OF send_attempt_no_snapshot, of w ed "h @ e1"] r(1) e1(1) obtain e2 where
    e2: "h3 = (h @ e1) @ e2" "list_all (\<lambda>e. e \<noteq> Makedirs ''screens'') e2" by auto
  from save_screenshot_one_snapshot [of w "''send_error_attempt_3''" h3] obtain e3 where
    e3: "snd (save_screenshot w ''send_error_attempt_3'' h3) = h3 @ e3" "snapshots_taken e3 = 1"
    by blast
  have n3: "snapshots_taken (drop (length h) h3) = 0"
    using e1(2) e2 by (simp add: snapshots_taken_append no_snapshot)
  have n4: "snapshots_taken (drop (length h) (snd (save_screenshot w ''send_error_attempt_3'' h3))) = 1"
    using e1(2) e2 e3 by (simp add: snapshots_taken_append no_snapshot)
  from r(1) s n3 n4
  show "\<exists>e h3 h4. send_attempt w ed (send_start w ed h 2) = (Inl e, h3) \<and>
                 send_email w ed h = (Inl e, h4) \<and>
                 h4 = snd (save_screenshot w ''send_error_attempt_3'' h3) \<and>
                 snapshots_taken (drop (length h) h3) = 0 \<and>
                 snapshots_taken (drop (length h) h4) = 1"
    by blast
next
  assume a: "0 < max_retries \<and>
      (\<forall>k<nat max_retries. isl (fst (fill_once w ft v (fill_start w ft v g k))))"
  let ?n = "nat max_retries"
  have n: "int ?n = max_retries" "0 + (?n - 1) = ?n - 1" "0 < ?n" using a by simp_all
  from a have f: "\<forall>j\<le>?n - 1. isl (fst (fill_once w ft v (fill_start w ft v g j)))" by auto
  from fill_loop_exhausted [OF n(2) n(3) f] n(1)
  have l: "fill_field_with_retry w ft v max_retries g
             = fill_once w ft v (fill_start w ft v g (?n - 1))"
    by (simp add: fill_field_with_retry_def range_def)
  from f obtain e g' where r: "fill_once w ft v (fill_start w ft v g (?n - 1)) = (Inl e, g')"
    by (cases "fill_once w ft v (fill_start w ft v g (?n - 1))") (auto simp add: isl_def)
  from fill_start_emits [OF fill_once_no_snapshot, of w ft v g "?n - 1"] obtain e1 where
    e1: "fill_start w ft v g (?n - 1) = g @ e1" "list_all (\<lambda>e. e \<noteq> Makedirs ''screens'') e1"
    by auto
  from emitsD [OF fill_once_no_snapshot, of w ft v "g @ e1"] r e1(1) obtain e2 where
    e2: "g' = (g @ e1) @ e2" "list_all (\<lambda>e. e \<noteq> Makedirs ''screens'') e2" by auto
  have "snapshots_taken (drop (length g) g') = 0"
    using e1(2) e2 by (simp add: snapshots_taken_append no_snapshot)
  with l r
  show "\<exists>e g'. fill_once w ft v (fill_start w ft v g (nat max_retries - 1)) = (Inl e, g') \<and>
              fill_field_with_retry w ft v max_retries g = (Inl e, g') \<and>
              snapshots_taken (drop (length g) g') = 0"
    by simp
qed

theorem retry_exhaustion_witness:
  "send_email page_failing draft0 [] =
     (Inl (Error ''failure 3''),
      [WaitVisible (Loc compose_sel) 10000, Count (Loc dialog_sel), Sleep 2,
       WaitVisible (Loc compose_sel) 10000, Count (Loc dialog_sel), Sleep 2,
       WaitVisible (Loc compose_sel) 10000, Count (Loc dialog_sel), Makedirs ''screens''])
   \<and> fill_field_with_retry page_failing ''body'' ''Text'' 2 [] =
     (Inl (Error ''failure 2''),
      [WaitVisible (Loc (body_selectors ! 0)) 1666, WaitVisible (Loc (body_selectors ! 1)) 1666,
       WaitVisible (Loc (body_selectors ! 2)) 1666, Count (Loc dialog_sel), Sleep 1,
       WaitVisible (Loc (body_selectors ! 0)) 1666, WaitVisible (Loc (body_selectors ! 1)) 1666,
       WaitVisible (Loc (body_selectors ! 2)) 1666, Count (Loc dialog_sel)])"
proof -
  have sa: "\<And>h. send_attempt page_failing draft0 h =
      (Inl (Error (''failure '' @
              str_nat (Suc (length (filter (\<lambda>e. e = Sleep 1 \<or> e = Sleep 2) h))))),
       h @ [WaitVisible (Loc compose_sel) 10000, Count (Loc dialog_sel)])"
    by (simp add: send_attempt_def open_compose_def wait_for_element_def selectors_of_def
        call_def page_failing_def and_then_def dialog_fallback_def count_def)
  have fo: "\<And>h. fill_once page_failing ''body'' ''Text'' h =
      (Inl (Error (''failure '' @
              str_nat (Suc (length (filter (\<lambda>e. e = Sleep 1 \<or> e = Sleep 2) h))))),
       h @ [WaitVisible (Loc (body_selectors ! 0)) 1666, WaitVisible (Loc (body_selectors ! 1)) 1666,
            WaitVisible (Loc (body_selectors ! 2)) 1666, Count (Loc dialog_sel)])"
    by (simp add: fill_once_def locate_field_def wait_for_element_def selectors_of_def
        body_selectors_def call_def page_failing_def and_then_def dialog_fallback_def count_def)
  have ss: "\<And>l h. save_screenshot page_failing l h = (Inr None, h @ [Makedirs ''screens''])"
    by (simp add: save_screenshot_def and_then_def call_def page_failing_def)
  have a: "to draft0 \<noteq> None \<and> subject draft0 \<noteq> None \<and>
    (\<forall>k<3. isl (fst (send_attempt page_failing draft0 (send_start page_failing draft0 [] k))))"
  proof -
    have "to draft0 \<noteq> None" "subject draft0 \<noteq> None" by (simp_all add: draft0_def)
    moreover have "\<forall>k<3. isl (fst (send_attempt page_failing draft0
                                      (send_start page_failing draft0 [] k)))"
      by (simp add: sa)
    ultimately show ?thesis by blast
  qed
  have b: "0 < (2::int) \<and>
      (\<forall>k<nat 2. isl (fst (fill_once page_failing ''body'' ''Text''
                             (fill_start page_failing ''body'' ''Text'' [] k))))"
    by (simp add: fo)
  from retry_exhaustion [of draft0 page_failing "[]" 2 "''body''" "''Text''" "[]",
      THEN conjunct1, rule_format, OF a]
  have 1: "send_email page_failing draft0 [] =
     (Inl (Error ''failure 3''),
      [WaitVisible (Loc compose_sel) 10000, Count (Loc dialog_sel), Sleep 2,
       WaitVisible (Loc compose_sel) 10000, Count (Loc dialog_sel), Sleep 2,
       WaitVisible (Loc compose_sel) 10000, Count (Loc dialog_sel), Makedirs ''screens''])"
    by (auto simp add: sa ss numeral_2_eq_2 numeral_3_eq_3 digit_def)
  from retry_exhaustion [of draft0 page_failing "[]" 2 "''body''" "''Text''" "[]",
      THEN conjunct2, rule_format, OF b]
  have 2: "fill_field_with_retry page_failing ''body'' ''Text'' 2 [] =
     (Inl (Error ''failure 2''),
      [WaitVisible (Loc (body_selectors ! 0)) 1666, WaitVisible (Loc (body_selectors ! 1)) 1666,
       WaitVisible (Loc (body_selectors ! 2)) 1666, Count (Loc dialog_sel), Sleep 1,
       WaitVisible (Loc (body_selectors ! 0)) 1666, WaitVisible (Loc (body_selectors ! 1)) 1666,
       WaitVisible (Loc (body_selectors ! 2)) 1666, Count (Loc dialog_sel)])"
    by (auto simp add: fo numeral_2_eq_2 digit_def)
  from 1 2 show ?thesis by simp
qed

subsection \<open>The order of the recipients\<close>

text \<open>
  C3: the history of a successful attempt of \<open>send_email\<close> is: what opens the compose
  dialog, in which nothing is filled and no key is pressed; then one block for each
  recipient, in the order of the addresses of \<open>to\<close>, then of \<open>cc\<close>, then of \<open>bcc\<close>, each
  block locating the field of its address again, clicking it, filling the address in and
  pressing Enter; then the rest (subject, body, send), in which no key is pressed.
\<close>

theorem recipients_filled_in_order:
  assumes "send_attempt w ed h = (Inr r, h')"
  shows "\<exists>pre blocks post.
           h' = h @ pre @ concat blocks @ post \<and>
           list_all2 (\<lambda>(sels, a) b. recipient_block sels a b) (recipient_plan ed) blocks \<and>
           list_all (\<lambda>e. \<not> is_entry e) pre \<and> list_all (\<lambda>e. \<not> is_press e) post"
proof -
  from assms obtain u1 h1 where
    1: "open_compose w h = (Inr u1, h1)"
    and r1: "and_then (fill_recipients w ed) (\<lambda>_. and_then (fill_subject w ed) (\<lambda>_.
               and_then (fill_body w ed) (\<lambda>_. and_then (click_send w) (\<lambda>_. ret True)))) h1
             = (Inr r, h')"
    unfolding send_attempt_def by (auto dest: and_then_InrE)
  from r1 obtain u2 h2 where
    2: "fill_recipients w ed h1 = (Inr u2, h2)"
    and r2: "and_then (fill_subject w ed) (\<lambda>_. and_then (fill_body w ed) (\<lambda>_.
               and_then (click_send w) (\<lambda>_. ret True))) h2 = (Inr r, h')"
    by (auto dest: and_then_InrE)
  have "emits (\<lambda>e. \<not> is_entry e) (open_compose w)"
    by (rule open_compose_emits) (simp_all add: locate_not_entry)
  from emitsD [OF this, of h] 1 obtain pre where
    pre: "h1 = h @ pre" "list_all (\<lambda>e. \<not> is_entry e) pre" by auto
  from fill_recipients_blocks [OF 2] obtain blocks where
    blocks: "h2 = h1 @ concat blocks"
      "list_all2 (\<lambda>(sels, a) b. recipient_block sels a b) (recipient_plan ed) blocks" by blast
  from emitsD [OF after_recipients_no_press, of w ed h2] r2 obtain post where
    post: "h' = h2 @ post" "list_all (\<lambda>e. \<not> is_press e) post" by auto
  from pre blocks post show ?thesis
    by (intro exI [of _ pre] exI [of _ blocks] exI [of _ post]) simp
qed


text \<open>
  On a page where everything returns, the draft with \<open>to = [a@x, b@x]\<close>, \<open>cc = c@x\<close> and
  \<open>bcc = [d@x]\<close> is typed in this order.
\<close>

theorem recipients_filled_in_order_witness:
  "fst (send_attempt page_ok draft_abcd []) = Inr True
   \<and> recipient_plan draft_abcd =
       [(to_selectors, ''a@x''), (to_selectors, ''b@x''), (cc_selectors, ''c@x''),
        (bcc_selectors, ''d@x'')]
   \<and> (\<exists>pre blocks post.
         snd (send_attempt page_ok draft_abcd []) = [] @ pre @ concat blocks @ post \<and>
         list_all2 (\<lambda>(sels, a) b. recipient_block sels a b) (recipient_plan draft_abcd) blocks \<and>
         list_all (\<lambda>e. \<not> is_entry e) pre \<and> list_all (\<lambda>e. \<not> is_press e) post)
   \<and> filter is_entry (snd (send_attempt page_ok draft_abcd [])) =
       [Fill (Loc (to_selectors ! 0)) ''a@x'', Press ''Enter'',
        Fill (Loc (to_selectors ! 0)) ''b@x'', Press ''Enter'',
        Fill (Loc (cc_selectors ! 0)) ''c@x'', Press ''Enter'',
        Fill (Loc (bcc_selectors ! 0)) ''d@x'', Press ''Enter'',
        Fill (Loc (subject_selectors ! 0)) ''Hello'', Fill (Loc (body_selectors ! 0)) ''Text'']"
proof -
  have d: "(5000::nat) div Suc (Suc 0) = 2500"
    by (simp add: numeral_2_eq_2 [symmetric])
  have e: "send_attempt page_ok draft_abcd [] =
     (Inr True,
      [WaitVisible (Loc compose_sel) 10000, Click (Loc compose_sel),
       WaitVisible (Loc dialog_sel) 10000, Sleep 1,
       WaitVisible (Loc (to_selectors ! 0)) 1666, Click (Loc (to_selectors ! 0)),
       Fill (Loc (to_selectors ! 0)) ''a@x'', Press ''Enter'',
       WaitVisible (Loc (to_selectors ! 0)) 1666, Click (Loc (to_selectors ! 0)),
       Fill (Loc (to_selectors ! 0)) ''b@x'', Press ''Enter'',
       WaitVisible (Loc (cc_selectors ! 0)) 2500, Click (Loc (cc_selectors ! 0)),
       Fill (Loc (cc_selectors ! 0)) ''c@x'', Press ''Enter'',
       WaitVisible (Loc (bcc_selectors ! 0)) 2500, Click (Loc (bcc_selectors ! 0)),
       Fill (Loc (bcc_selectors ! 0)) ''d@x'', Press ''Enter'',
       WaitVisible (Loc (subject_selectors ! 0)) 2500, Click (Loc (subject_selectors ! 0)),
       Clear (Loc (subject_selectors ! 0)), Fill (Loc (subject_selectors ! 0)) ''Hello'',
       WaitVisible (Loc (body_selectors ! 0)) 1666, Click (Loc (body_selectors ! 0)),
       Fill (Loc (body_selectors ! 0)) ''Text'',
       WaitVisible (Loc (send_selectors ! 0)) 1250, Click (Loc (send_selectors ! 0)),
       WaitForSelector sent_marker 10000])"
    by (simp add: pipeline_simps page_ok_simps draft_abcd_def d cc_selectors_def bcc_selectors_def)
  have p: "recipient_plan draft_abcd =
       [(to_selectors, ''a@x''), (to_selectors, ''b@x''), (cc_selectors, ''c@x''),
        (bcc_selectors, ''d@x'')]"
    by (simp add: recipient_plan_def draft_abcd_def as_list_def truthy_def)
  from recipients_filled_in_order [of page_ok draft_abcd "[]" True
      "snd (send_attempt page_ok draft_abcd [])"]
  have x: "\<exists>pre blocks post.
         snd (send_attempt page_ok draft_abcd []) = [] @ pre @ concat blocks @ post \<and>
         list_all2 (\<lambda>(sels, a) b. recipient_block sels a b) (recipient_plan draft_abcd) blocks \<and>
         list_all (\<lambda>e. \<not> is_entry e) pre \<and> list_all (\<lambda>e. \<not> is_press e) post"
    by (simp add: e)
  have f: "filter is_entry (snd (send_attempt page_ok draft_abcd [])) =
       [Fill (Loc (to_selectors ! 0)) ''a@x'', Press ''Enter'',
        Fill (Loc (to_selectors ! 0)) ''b@x'', Press ''Enter'',
        Fill (Loc (cc_selectors ! 0)) ''c@x'', Press ''Enter'',
        Fill (Loc (bcc_selectors ! 0)) ''d@x'', Press ''Enter'',
        Fill (Loc (subject_selectors ! 0)) ''Hello'', Fill (Loc (body_selectors ! 0)) ''Text'']"
    by (simp add: e)
  from e p x f show ?thesis by simp
qed

subsection \<open>The send loop\<close>

text \<open>
  C9, as stated, fails: a failed attempt need not be followed by another send click. On a
  page that stops answering once the wait for the confirmation marker has timed out, the
  first attempt of \<open>send_email\<close> fails after its send click, the two attempts that follow
  fail at the compose button, and the call raises having clicked send once.
\<close>

theorem send_email_single_send_click:
  "fst (send_attempt page_dies draft0 []) = Inl (TimeoutError ''Timeout 10000ms exceeded.'')
   \<and> take 2 (rev (snd (send_attempt page_dies draft0 [])))
       = [WaitForSelector sent_marker 10000, Click (Loc (send_selectors ! 0))]
   \<and> is_send_click (Click (Loc (send_selectors ! 0)))
   \<and> send_email page_dies draft0 [] =
       (Inl (Error ''page closed''),
        snd (send_attempt page_dies draft0 [])
          @ [Sleep 2, WaitVisible (Loc compose_sel) 10000, Count (Loc dialog_sel),
             Sleep 2, WaitVisible (Loc compose_sel) 10000, Count (Loc dialog_sel),
             Makedirs ''screens''])
   \<and> length (filter is_send_click (snd (send_email page_dies draft0 []))) = 1"
proof -
  have k: "to draft0 \<noteq> None" "subject draft0 \<noteq> None" by (simp_all add: draft0_def)
  have c: "is_send_click (Click (Loc (send_selectors ! 0)))"
    by (simp add: is_send_click_def send_selectors_def)
  have n: "\<not> is_send_click (Click (Loc compose_sel))"
    "\<not> is_send_click (Click (Loc (to_selectors ! 0)))"
    "\<not> is_send_click (Click (Loc (subject_selectors ! 0)))"
    "\<not> is_send_click (Click (Loc (body_selectors ! 0)))"
    by (simp_all add: other_field_not_send_click found_by_def to_selectors_def
        subject_selectors_def body_selectors_def)
  have e: "send_email page_dies draft0 [] = send_loop page_dies draft0 3 [0, 1, 2] []"
    using k by (auto simp add: send_email_def range_3 getitem_def and_then_def ret_def)
  have 1: "fst (send_attempt page_dies draft0 []) = Inl (TimeoutError ''Timeout 10000ms exceeded.'')"
    "take 2 (rev (snd (send_attempt page_dies draft0 [])))
       = [WaitForSelector sent_marker 10000, Click (Loc (send_selectors ! 0))]"
    by (simp_all add: send_attempt_page_dies_first)
  have 2: "send_email page_dies draft0 [] =
       (Inl (Error ''page closed''),
        snd (send_attempt page_dies draft0 [])
          @ [Sleep 2, WaitVisible (Loc compose_sel) 10000, Count (Loc dialog_sel),
             Sleep 2, WaitVisible (Loc compose_sel) 10000, Count (Loc dialog_sel),
             Makedirs ''screens''])"
    unfolding e
    by (simp add: send_attempt_page_dies_first send_attempt_page_dies_later
        save_screenshot_page_dies and_then_def sleep_def)
  have 3: "length (filter is_send_click (snd (send_email page_dies draft0 []))) = 1"
    unfolding 2 by (simp add: send_attempt_page_dies_first c n)
  from 1 c 2 3 show ?thesis by simp
qed

text \<open>
  C9, amended: a failed attempt is not undone. Whatever the page does, one call of
  \<open>send_email\<close> clicks a send button at most three times. When the first attempt, or the
  first and the second, fail, at whatever point and so also after the send click, what
  they did stays in the history, and the loop sleeps and makes the next attempt: it waits
  for the compose button, clicks it when it is found, and clicks the send button again
  when the attempt gets as far as finding it. On a page where the confirmation marker
  never appears the call raises after having clicked send three times, so an error does
  not tell that no send click occurred.
\<close>

theorem send_email_not_atomic:
  "(\<exists>evs. snd (send_email w ed h) = h @ evs \<and> length (filter is_send_click evs) \<le> 3)
   \<and> (to ed \<noteq> None \<and> subject ed \<noteq> None \<and> k < 2 \<and>
      (\<forall>j\<le>k. isl (fst (send_attempt w ed (send_start w ed h j)))) \<longrightarrow>
        (\<exists>rest. snd (send_email w ed h)
                  = snd (send_attempt w ed (send_start w ed h k))
                      @ [Sleep 2, WaitVisible (Loc compose_sel) 10000] @ rest)
        \<and> (\<forall>btn g. wait_for_element w (One compose_sel) 10000 ''compose button''
                      (send_start w ed h (Suc k)) = (Inr btn, g) \<longrightarrow>
              (\<exists>rest. snd (send_email w ed h) = g @ Click btn # rest))
        \<and> (\<forall>send_btn g. until_send w ed (send_start w ed h (Suc k)) = (Inr send_btn, g) \<longrightarrow>
              (\<exists>rest. snd (send_email w ed h) = g @ Click send_btn # rest)))
   \<and> fst (send_email page_no_marker draft0 []) = Inl (TimeoutError ''Timeout 10000ms exceeded.'')
   \<and> length (filter is_send_click (snd (send_email page_no_marker draft0 []))) = 3"
proof -
  have a: "\<exists>evs. snd (send_email w ed h) = h @ evs \<and> length (filter is_send_click evs) \<le> 3"
    by (rule at_mostD [OF send_email_at_most])
  have b: "to ed \<noteq> None \<and> subject ed \<noteq> None \<and> k < 2 \<and>
      (\<forall>j\<le>k. isl (fst (send_attempt w ed (send_start w ed h j)))) \<longrightarrow>
        (\<exists>rest. snd (send_email w ed h)
                  = snd (send_attempt w ed (send_start w ed h k))
                      @ [Sleep 2, WaitVisible (Loc compose_sel) 10000] @ rest)
        \<and> (\<forall>btn g. wait_for_element w (One compose_sel) 10000 ''compose button''
                      (send_start w ed h (Suc k)) = (Inr btn, g) \<longrightarrow>
              (\<exists>rest. snd (send_email w ed h) = g @ Click btn # rest))
        \<and> (\<forall>send_btn g. until_send w ed (send_start w ed h (Suc k)) = (Inr send_btn, g) \<longrightarrow>
              (\<exists>rest. snd (send_email w ed h) = g @ Click send_btn # rest))"
  proof (intro impI)
    assume p: "to ed \<noteq> None \<and> subject ed \<noteq> None \<and> k < 2 \<and>
      (\<forall>j\<le>k. isl (fst (send_attempt w ed (send_start w ed h j))))"
    let ?g = "send_start w ed h (Suc k)"
    from p send_email_after_failures [of ed k w h] obtain evs where
      n: "snd (send_email w ed h) = snd (send_attempt w ed ?g) @ evs" by blast
    have g: "?g = snd (send_attempt w ed (send_start w ed h k)) @ [Sleep 2]" by simp
    from send_attempt_opening [of w ed ?g] obtain e1 where
      "snd (send_attempt w ed ?g) = ?g @ WaitVisible (Loc compose_sel) 10000 # e1" by blast
    with n g have 1: "\<exists>rest. snd (send_email w ed h)
                  = snd (send_attempt w ed (send_start w ed h k))
                      @ [Sleep 2, WaitVisible (Loc compose_sel) 10000] @ rest"
      by (simp del: send_start.simps)
    have 2: "\<forall>btn g. wait_for_element w (One compose_sel) 10000 ''compose button'' ?g
                = (Inr btn, g) \<longrightarrow> (\<exists>rest. snd (send_email w ed h) = g @ Click btn # rest)"
    proof (intro allI impI)
      fix btn g1
      assume "wait_for_element w (One compose_sel) 10000 ''compose button'' ?g = (Inr btn, g1)"
      from send_attempt_compose_click [OF this, of ed] obtain e2 where
        "snd (send_attempt w ed ?g) = g1 @ Click btn # e2" by blast
      with n show "\<exists>rest. snd (send_email w ed h) = g1 @ Click btn # rest"
        by (simp del: send_start.simps)
    qed
    have 3: "\<forall>send_btn g. until_send w ed ?g = (Inr send_btn, g) \<longrightarrow>
               (\<exists>rest. snd (send_email w ed h) = g @ Click send_btn # rest)"
    proof (intro allI impI)
      fix send_btn g1
      assume "until_send w ed ?g = (Inr send_btn, g1)"
      from send_attempt_send_click [OF this] obtain e2 where
        "snd (send_attempt w ed ?g) = g1 @ Click send_btn # e2" by blast
      with n show "\<exists>rest. snd (send_email w ed h) = g1 @ Click send_btn # rest"
        by (simp del: send_start.simps)
    qed
    from 1 2 3 show "(\<exists>rest. snd (send_email w ed h)
                  = snd (send_attempt w ed (send_start w ed h k))
                      @ [Sleep 2, WaitVisible (Loc compose_sel) 10000] @ rest)
        \<and> (\<forall>btn g. wait_for_element w (One compose_sel) 10000 ''compose button''
                      (send_start w ed h (Suc k)) = (Inr btn, g) \<longrightarrow>
              (\<exists>rest. snd (send_email w ed h) = g @ Click btn # rest))
        \<and> (\<forall>send_btn g. until_send w ed (send_start w ed h (Suc k)) = (Inr send_btn, g) \<longrightarrow>
              (\<exists>rest. snd (send_email w ed h) = g @ Click send_btn # rest))"
      by blast
  qed
  have s: "\<And>l h. save_screenshot page_no_marker l h =
       (Inr (Some (''screens/20240101_120000_'' @ l @ ''.png'')),
        h @ [Makedirs ''screens'', Screenshot (''screens/20240101_120000_'' @ l @ ''.png'')])"
    by (simp add: save_screenshot_def and_then_def call_def ret_def page_no_marker_def
        sent_marker_def Let_def)
  have k: "to draft0 \<noteq> None" "subject draft0 \<noteq> None" by (simp_all add: draft0_def)
  have c: "is_send_click (Click (Loc (send_selectors ! 0)))"
    by (simp add: is_send_click_def send_selectors_def)
  have n: "\<not> is_send_click (Click (Loc compose_sel))"
    "\<not> is_send_click (Click (Loc (to_selectors ! 0)))"
    "\<not> is_send_click (Click (Loc (subject_selectors ! 0)))"
    "\<not> is_send_click (Click (Loc (body_selectors ! 0)))"
    by (simp_all add: other_field_not_send_click found_by_def to_selectors_def
        subject_selectors_def body_selectors_def)
  have e: "send_email page_no_marker draft0 [] = send_loop page_no_marker draft0 3 [0, 1, 2] []"
    using k by (auto simp add: send_email_def range_3 getitem_def and_then_def ret_def)
  have "fst (send_email page_no_marker draft0 []) = Inl (TimeoutError ''Timeout 10000ms exceeded.'')"
    "length (filter is_send_click (snd (send_email page_no_marker draft0 []))) = 3"
    unfolding e
    by (simp_all add: send_attempt_no_marker s and_then_def sleep_def c n)
  with a b show ?thesis by blast
qed


text \<open>
  On the page where the marker never appears, the first and the second attempt fail after
  their send click, and the third attempt finds the send button and clicks it again.
\<close>

theorem send_email_not_atomic_witness:
  "isl (fst (send_attempt page_no_marker draft0 (send_start page_no_marker draft0 [] 0)))
   \<and> isl (fst (send_attempt page_no_marker draft0 (send_start page_no_marker draft0 [] (Suc 0))))
   \<and> length (filter is_send_click (send_start page_no_marker draft0 [] (Suc (Suc 0)))) = 2
   \<and> fst (until_send page_no_marker draft0 (send_start page_no_marker draft0 [] (Suc (Suc 0))))
       = Inr (Loc (send_selectors ! 0))
   \<and> take (Suc (length (snd (until_send page_no_marker draft0
                                 (send_start page_no_marker draft0 [] (Suc (Suc 0)))))))
          (snd (send_email page_no_marker draft0 []))
       = snd (until_send page_no_marker draft0 (send_start page_no_marker draft0 [] (Suc (Suc 0))))
           @ [Click (Loc (send_selectors ! 0))]"
proof -
  let ?g = "send_start page_no_marker draft0 [] (Suc (Suc 0))"
  have f: "isl (fst (send_attempt page_no_marker draft0 (send_start page_no_marker draft0 [] 0)))"
    "isl (fst (send_attempt page_no_marker draft0 (send_start page_no_marker draft0 [] (Suc 0))))"
    by (simp_all add: send_attempt_no_marker)
  have p: "to draft0 \<noteq> None \<and> subject draft0 \<noteq> None \<and> Suc 0 < 2 \<and>
      (\<forall>j\<le>Suc 0. isl (fst (send_attempt page_no_marker draft0
                                (send_start page_no_marker draft0 [] j))))"
    using f by (auto simp add: draft0_def le_Suc_eq)
  have u: "until_send page_no_marker draft0 ?g =
      (Inr (Loc (send_selectors ! 0)), snd (until_send page_no_marker draft0 ?g))"
    by (simp add: until_send_no_marker)
  note t = send_email_not_atomic [of page_no_marker draft0 "[]" "Suc 0",
      THEN conjunct2, THEN conjunct1, rule_format, OF p]
  from t [THEN conjunct2, THEN conjunct2, rule_format, OF u] obtain rest where
    r: "snd (send_email page_no_marker draft0 []) =
          snd (until_send page_no_marker draft0 ?g) @ Click (Loc (send_selectors ! 0)) # rest"
    by blast
  have c: "is_send_click (Click (Loc (send_selectors ! 0)))"
    by (simp add: is_send_click_def send_selectors_def)
  have n: "\<not> is_send_click (Click (Loc compose_sel))"
    "\<not> is_send_click (Click (Loc (to_selectors ! 0)))"
    "\<not> is_send_click (Click (Loc (subject_selectors ! 0)))"
    "\<not> is_send_click (Click (Loc (body_selectors ! 0)))"
    by (simp_all add: other_field_not_send_click found_by_def to_selectors_def
        subject_selectors_def body_selectors_def)
  have 2: "length (filter is_send_click ?g) = 2"
    by (simp add: send_attempt_no_marker c n)
  have 3: "fst (until_send page_no_marker draft0 ?g) = Inr (Loc (send_selectors ! 0))"
    by (simp add: until_send_no_marker)
  have 4: "take (Suc (length (snd (until_send page_no_marker draft0 ?g))))
          (snd (send_email page_no_marker draft0 []))
       = snd (until_send page_no_marker draft0 ?g) @ [Click (Loc (send_selectors ! 0))]"
    unfolding r by simp
  from f 2 3 4 show ?thesis by blast
qed

end
